theory Spec2Isabelle
  imports Complex_Main "HOL-Library.Word"
begin

unbundle bit_operations_syntax

chapter \<open>BEJ (Binary Encoded JSON) codec: a shallow embedding\<close>

text \<open>
  The development follows the C sources: \<^verbatim>\<open>bej_encode.c\<close> (the encoder),
  \<^verbatim>\<open>bej_decode.c\<close> (the decoder) and \<^verbatim>\<open>bej_dictionary.c\<close> (the dictionary
  loader and its entry cursor). Fixed-width C integers are machine words, byte
  buffers are lists of bytes, a \<^verbatim>\<open>FILE*\<close> opened for reading is a buffer
  with a position, and a \<^verbatim>\<open>FILE*\<close> opened for writing is the list of bytes
  written to it.
\<close>

section \<open>Bytes and streams\<close>

type_synonym byte = "8 word"
type_synonym u16 = "16 word"
type_synonym u64 = "64 word"

text \<open>An input stream: the whole buffer and the current read position.\<close>

record rstream =
  buf :: "byte list"
  pos :: nat

text \<open>
  \<^verbatim>\<open>fread(dst, 1, n, stream)\<close>: the bytes that could be read (fewer than
  \<open>n\<close> at the end of the buffer); the position moves past them. The C code
  compares the number of bytes read with \<open>n\<close>.
\<close>

definition fread :: "nat \<Rightarrow> rstream \<Rightarrow> byte list \<times> rstream" where
  "fread n s = (let got = take n (drop (pos s) (buf s))
                in (got, s\<lparr>pos := pos s + length got\<rparr>))"

section \<open>NNINT: length-prefixed little-endian unsigned integers\<close>

text \<open>
  The loop of \<^verbatim>\<open>pack_nnint\<close>:
  \<^verbatim>\<open>while (v) { tmp[++n] = (uint8_t)(v & 0xFF); v >>= 8; }\<close>
  It returns the bytes stored in \<^verbatim>\<open>tmp[1..n]\<close>.
\<close>

lemma unat_drop_bit_8: "unat (drop_bit 8 (v :: u64)) = unat v div 256"
proof -
  have "unat (drop_bit 8 v) = drop_bit 8 (unat v)" by (rule unat_drop_bit_eq)
  then show ?thesis by (simp add: drop_bit_eq_div)
qed

function pack_nnint_loop :: "u64 \<Rightarrow> byte list" where
  "pack_nnint_loop v =
     (if v = 0 then [] else ucast (v AND 0xFF) # pack_nnint_loop (drop_bit 8 v))"
  by pat_completeness auto
termination
proof (relation "measure unat")
  fix v :: u64
  assume "v \<noteq> 0"
  then have "0 < unat v" by (simp add: unat_gt_0)
  then have "unat v div 256 < unat v" by simp
  then show "(drop_bit 8 v, v) \<in> measure unat"
    by (simp add: unat_drop_bit_8)
qed simp

declare pack_nnint_loop.simps [simp del]

definition pack_nnint :: "u64 \<Rightarrow> byte list" where
  "pack_nnint v =
     (if v = 0 then [1, 0]
      else (let tmp = pack_nnint_loop v in of_nat (length tmp) # tmp))"

text \<open>
  The assembling loop shared by \<^verbatim>\<open>unpack_nnint\<close> and
  \<^verbatim>\<open>unpack_integer_value\<close>:
  \<^verbatim>\<open>for (i = 0; i < n; i++) value |= ((uint64_t)bytes[i] << (8 * i));\<close>
\<close>

fun assemble_le :: "nat \<Rightarrow> byte list \<Rightarrow> u64 \<Rightarrow> u64" where
  "assemble_le i [] acc = acc"
| "assemble_le i (b # bs) acc =
     assemble_le (i + 1) bs (acc OR push_bit (8 * i) (ucast b))"

text \<open>
  \<^verbatim>\<open>unpack_nnint\<close>: \<open>None\<close> is the return value 0. The stream is returned
  in both cases, since callers go on reading after a failure they ignore.
\<close>

definition unpack_nnint :: "rstream \<Rightarrow> u64 option \<times> rstream" where
  "unpack_nnint s =
     (case fread 1 s of
        ([num_bytes], s1) \<Rightarrow>
          if num_bytes > 8 then (None, s1)
          else if num_bytes > 0 then
            (case fread (unat num_bytes) s1 of (bytes, s2) \<Rightarrow>
               if length bytes \<noteq> unat num_bytes then (None, s2)
               else (Some (assemble_le 0 bytes 0), s2))
          else (Some (assemble_le 0 [] 0), s1)
      | (_, s1) \<Rightarrow> (None, s1))"

subsection \<open>Properties of the NNINT codec\<close>

lemma bit_255_int: "bit (255 :: int) n \<longleftrightarrow> n < 8"
proof -
  have e: "(255 :: int) = mask 8" by (simp add: mask_eq_exp_minus_1)
  show ?thesis by (subst e) (simp add: bit_mask_iff)
qed

lemma low_byte_split:
  "ucast (ucast (v AND 0xFF :: u64) :: byte) OR push_bit 8 (drop_bit 8 v) = (v :: u64)"
proof (rule bit_eqI)
  fix n
  assume "possible_bit TYPE(u64) n"
  show "bit (ucast (ucast (v AND 0xFF :: u64) :: byte) OR push_bit 8 (drop_bit 8 v) :: u64) n
          \<longleftrightarrow> bit v n"
    by (cases "n < 8") (auto simp: bit_simps bit_255_int dest: bit_imp_le_length)
qed

lemma byte_split:
  "push_bit (8 * i) (ucast (ucast (v AND 0xFF :: u64) :: byte) :: u64)
     OR push_bit (8 * (i + 1)) (drop_bit 8 v) = push_bit (8 * i) v"
proof -
  have "push_bit (8 * i)
          (ucast (ucast (v AND 0xFF :: u64) :: byte) OR push_bit 8 (drop_bit 8 v) :: u64)
          = push_bit (8 * i) v"
    by (simp only: low_byte_split)
  then show ?thesis
    by (simp add: push_bit_or push_bit_push_bit add.commute)
qed

lemma assemble_pack_loop:
  "assemble_le i (pack_nnint_loop v) acc = acc OR push_bit (8 * i) v"
proof (induction v arbitrary: i acc rule: pack_nnint_loop.induct)
  case (1 v)
  show ?case
  proof (cases "v = 0")
    case True
    then show ?thesis by (simp add: pack_nnint_loop.simps)
  next
    case False
    have "assemble_le i (pack_nnint_loop v) acc
        = assemble_le (i + 1) (pack_nnint_loop (drop_bit 8 v))
            (acc OR push_bit (8 * i) (ucast (ucast (v AND 0xFF :: u64) :: byte)))"
      using False by (subst pack_nnint_loop.simps) simp
    also have "\<dots> = (acc OR push_bit (8 * i) (ucast (ucast (v AND 0xFF :: u64) :: byte)))
                   OR push_bit (8 * (i + 1)) (drop_bit 8 v)"
      using "1.IH" [OF False] by simp
    also have "\<dots> = acc OR push_bit (8 * i) v"
      using byte_split [of i v] by (simp add: or.assoc)
    finally show ?thesis .
  qed
qed

lemma pack_loop_length_bounds:
  "unat v < 256 ^ length (pack_nnint_loop v) \<and>
   (v \<noteq> 0 \<longrightarrow> 256 ^ (length (pack_nnint_loop v) - 1) \<le> unat v)"
proof (induction v rule: pack_nnint_loop.induct)
  case (1 v)
  show ?case
  proof (cases "v = 0")
    case True
    then show ?thesis by (simp add: pack_nnint_loop.simps)
  next
    case False
    let ?w = "drop_bit 8 v :: u64"
    have len: "length (pack_nnint_loop v) = Suc (length (pack_nnint_loop ?w))"
      using False by (subst pack_nnint_loop.simps) simp
    have uw: "unat ?w = unat v div 256" by (rule unat_drop_bit_8)
    from "1.IH" [OF False] have ih1: "unat ?w < 256 ^ length (pack_nnint_loop ?w)"
      and ih2: "?w \<noteq> 0 \<longrightarrow> 256 ^ (length (pack_nnint_loop ?w) - 1) \<le> unat ?w" by auto
    have upper: "unat v < 256 ^ length (pack_nnint_loop v)"
    proof -
      have "unat v < 256 * (unat v div 256 + 1)" by simp
      also have "\<dots> \<le> 256 * 256 ^ length (pack_nnint_loop ?w)"
        using ih1 uw by simp
      finally show ?thesis by (simp add: len)
    qed
    have lower: "256 ^ (length (pack_nnint_loop v) - 1) \<le> unat v"
    proof (cases "?w = 0")
      case True
      then have "length (pack_nnint_loop ?w) = 0" by (simp add: pack_nnint_loop.simps)
      moreover have "0 < unat v" using False by (simp add: unat_gt_0)
      ultimately show ?thesis by (simp add: len)
    next
      case nz: False
      then have "0 < length (pack_nnint_loop ?w)"
        by (subst pack_nnint_loop.simps) simp
      then obtain k where k: "length (pack_nnint_loop ?w) = Suc k"
        by (cases "length (pack_nnint_loop ?w)") auto
      have "256 * 256 ^ k \<le> 256 * (unat v div 256)"
        using ih2 nz uw k by simp
      also have "\<dots> \<le> unat v" by simp
      finally show ?thesis by (simp add: len k)
    qed
    from upper lower show ?thesis by simp
  qed
qed

lemma pack_loop_nth:
  "i < length (pack_nnint_loop v) \<Longrightarrow> pack_nnint_loop v ! i = ucast (drop_bit (8 * i) v)"
proof (induction v arbitrary: i rule: pack_nnint_loop.induct)
  case (1 v)
  show ?case
  proof (cases "v = 0")
    case True
    with "1.prems" show ?thesis by (simp add: pack_nnint_loop.simps)
  next
    case False
    have e: "pack_nnint_loop v = ucast (v AND 0xFF) # pack_nnint_loop (drop_bit 8 v)"
      using False by (subst pack_nnint_loop.simps) simp
    show ?thesis
    proof (cases i)
      case 0
      have "(ucast (v AND 0xFF) :: byte) = ucast v"
        by (rule bit_eqI) (auto simp: bit_simps bit_255_int)
      then show ?thesis using 0 e by simp
    next
      case (Suc j)
      then have "j < length (pack_nnint_loop (drop_bit 8 v))" using "1.prems" e by simp
      from "1.IH" [OF False this] show ?thesis using Suc e
        by (simp add: drop_bit_drop_bit add.commute)
    qed
  qed
qed

lemma pack_loop_length_le8: "length (pack_nnint_loop v) \<le> 8"
proof (cases "v = 0")
  case True
  then show ?thesis by (simp add: pack_nnint_loop.simps)
next
  case False
  let ?n = "length (pack_nnint_loop v)"
  have "(256::nat) ^ (?n - 1) \<le> unat v" using pack_loop_length_bounds [of v] False by simp
  also have "unat v < 2 ^ 64" using unsigned_less [of v] by simp
  also have "(2::nat) ^ 64 = 256 ^ 8" by simp
  finally have "?n - 1 < 8" by (simp only: power_strict_increasing_iff)
  then show ?thesis by simp
qed

lemma pack_loop_length_pos: "v \<noteq> 0 \<Longrightarrow> 0 < length (pack_nnint_loop v)"
  by (subst pack_nnint_loop.simps) simp

lemma pack_loop_length_byte:
  "unat (of_nat (length (pack_nnint_loop v)) :: byte) = length (pack_nnint_loop v)"
  using pack_loop_length_le8 [of v] by (simp add: unat_of_nat)

lemma pack_loop_eq_map:
  "pack_nnint_loop v =
     map (\<lambda>i. ucast (drop_bit (8 * i) v)) [0..<length (pack_nnint_loop v)]"
  by (rule nth_equalityI) (simp_all add: pack_loop_nth)

lemma unpack_pack_nnint:
  "unpack_nnint \<lparr>buf = pre @ pack_nnint v @ post, pos = length pre\<rparr> =
     (Some v, \<lparr>buf = pre @ pack_nnint v @ post,
               pos = length pre + length (pack_nnint v)\<rparr>)"
proof (cases "v = 0")
  case True
  then show ?thesis
    by (simp add: unpack_nnint_def pack_nnint_def fread_def)
next
  case False
  let ?tmp = "pack_nnint_loop v"
  let ?n = "of_nat (length ?tmp) :: byte"
  have n: "unat ?n = length ?tmp" by (rule pack_loop_length_byte)
  have pos: "0 < length ?tmp" using False by (rule pack_loop_length_pos)
  have le: "length ?tmp \<le> 8" by (rule pack_loop_length_le8)
  have n8: "\<not> ?n > 8" using n le by (simp add: word_less_nat_alt)
  have n0: "?n > 0" using n pos by (simp add: word_less_nat_alt)
  have asm: "assemble_le 0 ?tmp 0 = v" by (simp add: assemble_pack_loop)
  show ?thesis
    using False n n8 n0 asm
    by (simp add: unpack_nnint_def pack_nnint_def fread_def Let_def)
qed

text \<open>
  Claim C2. For every 64-bit value \<open>v\<close>, \<^verbatim>\<open>unpack_nnint\<close> reads back \<open>v\<close> from
  the bytes \<^verbatim>\<open>pack_nnint\<close> writes for it (wherever they stand in a stream),
  and the encoding is minimal: the two bytes \<open>01 00\<close> for \<open>v = 0\<close>, otherwise a
  length byte \<open>n\<close>, the least \<open>n\<close> in \<open>1..8\<close> with \<open>v < 2 ^ (8 * n)\<close>, followed
  by the \<open>n\<close> little-endian bytes of \<open>v\<close>.
\<close>

theorem pack_nnint_roundtrip_minimal:
  "unpack_nnint \<lparr>buf = pre @ pack_nnint v @ post, pos = length pre\<rparr> =
     (Some v, \<lparr>buf = pre @ pack_nnint v @ post,
               pos = length pre + length (pack_nnint v)\<rparr>)
   \<and> (v = 0 \<longrightarrow> pack_nnint v = [1, 0])
   \<and> (v \<noteq> 0 \<longrightarrow>
        (\<exists>n. 1 \<le> n \<and> n \<le> 8 \<and> unat v < 2 ^ (8 * n)
           \<and> (\<forall>m. 1 \<le> m \<and> m < n \<longrightarrow> \<not> unat v < 2 ^ (8 * m))
           \<and> pack_nnint v = of_nat n # map (\<lambda>i. ucast (drop_bit (8 * i) v)) [0..<n]))"
proof (intro conjI impI)
  show "unpack_nnint \<lparr>buf = pre @ pack_nnint v @ post, pos = length pre\<rparr> =
     (Some v, \<lparr>buf = pre @ pack_nnint v @ post,
               pos = length pre + length (pack_nnint v)\<rparr>)"
    by (rule unpack_pack_nnint)
next
  assume "v = 0"
  then show "pack_nnint v = [1, 0]" by (simp add: pack_nnint_def)
next
  assume nz: "v \<noteq> 0"
  let ?n = "length (pack_nnint_loop v)"
  have b1: "unat v < 256 ^ ?n" and b2: "256 ^ (?n - 1) \<le> unat v"
    using pack_loop_length_bounds [of v] nz by simp_all
  have p: "(256::nat) ^ k = 2 ^ (8 * k)" for k
    by (simp add: power_mult)
  have least: "\<not> unat v < 2 ^ (8 * m)" if "1 \<le> m" "m < ?n" for m
  proof -
    from that have "m \<le> ?n - 1" by simp
    then have "(256::nat) ^ m \<le> 256 ^ (?n - 1)"
      by (rule power_increasing) simp
    also note b2
    finally have "256 ^ m \<le> unat v" .
    then show ?thesis by (simp add: p)
  qed
  have enc: "pack_nnint v = of_nat ?n # map (\<lambda>i. ucast (drop_bit (8 * i) v)) [0..<?n]"
    using nz pack_loop_eq_map [of v] by (simp add: pack_nnint_def Let_def)
  have "1 \<le> ?n" using pack_loop_length_pos [OF nz] by linarith
  moreover have "?n \<le> 8" by (rule pack_loop_length_le8)
  moreover have "unat v < 2 ^ (8 * ?n)" using b1 by (simp add: p)
  ultimately show "\<exists>n. 1 \<le> n \<and> n \<le> 8 \<and> unat v < 2 ^ (8 * n)
           \<and> (\<forall>m. 1 \<le> m \<and> m < n \<longrightarrow> \<not> unat v < 2 ^ (8 * m))
           \<and> pack_nnint v = of_nat n # map (\<lambda>i. ucast (drop_bit (8 * i) v)) [0..<n]"
    using least enc by blast
qed

theorem pack_nnint_roundtrip_minimal_witness:
  "pack_nnint 0x1234 = [2, 0x34, 0x12]
   \<and> unpack_nnint \<lparr>buf = [7] @ [2, 0x34, 0x12] @ [9], pos = 1\<rparr> =
       (Some 0x1234, \<lparr>buf = [7] @ [2, 0x34, 0x12] @ [9], pos = 4\<rparr>)
   \<and> unat (0x1234 :: u64) < 2 ^ (8 * 2) \<and> \<not> unat (0x1234 :: u64) < 2 ^ (8 * 1)"
proof -
  have e: "pack_nnint 0x1234 = [2, 0x34, 0x12]" by code_simp
  show ?thesis
    using pack_nnint_roundtrip_minimal [of "[7]" "0x1234" "[9]"] e by simp
qed

text \<open>
  Claim C5, as the code has it. \<^verbatim>\<open>unpack_nnint\<close> fails on every input whose
  length byte is greater than 8 (and at the end of the input). A length byte 0
  is accepted: the call succeeds with the value 0 and consumes the length byte
  only.
\<close>

theorem unpack_nnint_length_byte:
  assumes "pos s < length (buf s)" and "L = buf s ! pos s"
  shows "(L > 8 \<longrightarrow> fst (unpack_nnint s) = None)
       \<and> (L = 0 \<longrightarrow> unpack_nnint s = (Some 0, s\<lparr>pos := pos s + 1\<rparr>))"
proof -
  from assms have "take 1 (drop (pos s) (buf s)) = [L]"
    by (simp add: take_Suc_conv_app_nth [symmetric] take_Suc hd_drop_conv_nth)
  then have "fread 1 s = ([L], s\<lparr>pos := pos s + 1\<rparr>)"
    by (simp add: fread_def)
  then show ?thesis
    by (simp add: unpack_nnint_def)
qed

theorem unpack_nnint_length_byte_witness:
  "fst (unpack_nnint \<lparr>buf = [9, 1, 2, 3, 4, 5, 6, 7, 8, 9], pos = 0\<rparr>) = None
   \<and> unpack_nnint \<lparr>buf = [1, 0, 5], pos = 1\<rparr> = (Some 0, \<lparr>buf = [1, 0, 5], pos = 2\<rparr>)"
  using unpack_nnint_length_byte [of "\<lparr>buf = [9, 1, 2, 3, 4, 5, 6, 7, 8, 9], pos = 0\<rparr>" 9]
    unpack_nnint_length_byte [of "\<lparr>buf = [1, 0, 5], pos = 1\<rparr>" 0]
  by simp

text \<open>
  The claim as stated fails: on the one-byte input \<open>00\<close> the call returns 1
  with the value 0.
\<close>

theorem unpack_nnint_zero_length_counterexample:
  "fst (unpack_nnint \<lparr>buf = [0], pos = 0\<rparr>) = Some 0
   \<and> fst (unpack_nnint \<lparr>buf = [0], pos = 0\<rparr>) \<noteq> None"
  by (simp add: unpack_nnint_def fread_def Let_def)
section \<open>Signed integers\<close>

text \<open>
  \<^verbatim>\<open>pack_integer_value\<close>. An \<^verbatim>\<open>int64_t\<close> is a 64-bit word read as two's
  complement (\<open>sint\<close>). First the eight little-endian bytes of the value:
  \<^verbatim>\<open>for (i = 0; i < 8; ++i) buf[i] = (uint8_t)(u >> (8 * i));\<close>
\<close>

definition int64_le_bytes :: "u64 \<Rightarrow> byte list" where
  "int64_le_bytes u = map (\<lambda>i. ucast (drop_bit (8 * i) u)) [0..<8]"

text \<open>
  The trimming loop \<^verbatim>\<open>while (num > 1) { ... num--; }\<close>: the top byte is dropped
  while it is a pure sign extension of the byte below it.
\<close>

function pack_integer_width :: "u64 \<Rightarrow> byte list \<Rightarrow> nat \<Rightarrow> nat" where
  "pack_integer_width v b8 num =
     (if num > 1 then
        (let msb_next = b8 ! (num - 1); msb = b8 ! (num - 2) in
         if (0 \<le>s v \<and> msb_next = 0x00 \<and> msb AND 0x80 = 0) \<or>
            (v <s 0 \<and> msb_next = 0xFF \<and> msb AND 0x80 \<noteq> 0)
         then pack_integer_width v b8 (num - 1)
         else num)
      else num)"
  by pat_completeness auto
termination
  by (relation "measure (\<lambda>(v, b8, num). num)") auto

declare pack_integer_width.simps [simp del]

definition pack_integer_value :: "u64 \<Rightarrow> byte list" where
  "pack_integer_value v =
     (let b8 = int64_le_bytes v; num = pack_integer_width v b8 8
      in pack_nnint (of_nat num) @ take num b8)"

text \<open>
  The value \<^verbatim>\<open>unpack_integer_value\<close> computes before it prints it: the NNINT
  width, the bytes, and the sign extension
  \<^verbatim>\<open>value = (value << shift) >> shift\<close> on an \<^verbatim>\<open>int64_t\<close>. The left shift of
  a signed value into the sign bit is read as the two's-complement shift every
  compiler of the repository's targets performs (ISO C leaves it undefined), the
  right shift as the arithmetic one.
\<close>

definition unpack_integer :: "rstream \<Rightarrow> u64 option \<times> rstream" where
  "unpack_integer s =
     (case unpack_nnint s of
        (None, s1) \<Rightarrow> (None, s1)
      | (Some val_len, s1) \<Rightarrow>
          if val_len = 0 \<or> val_len > 8 then (None, s1)
          else (case fread (unat val_len) s1 of (bytes, s2) \<Rightarrow>
            if length bytes \<noteq> unat val_len then (None, s2)
            else (let v = assemble_le 0 bytes 0 in
              if val_len < 8 \<and> (bytes ! (unat val_len - 1)) AND 0x80 \<noteq> 0
              then (let shift = (8 - unat val_len) * 8
                    in (Some (signed_drop_bit shift (push_bit shift v)), s2))
              else (Some v, s2))))"



text \<open>
  The outcome of a decoder function: \<open>Ok\<close> is the return value 1, \<open>Fail\<close> the
  return value 0. \<open>Undef\<close> marks undefined behaviour of the C code (a \<^verbatim>\<open>NULL\<close>
  name dereferenced or printed), and \<open>NoFuel\<close> that the recursion bound of the
  model was reached.
\<close>

datatype status = Ok | Fail | Undef | NoFuel

text \<open>\<^verbatim>\<open>fprintf(out, "%" PRId64, value)\<close>: the decimal digits of a signed integer.\<close>

function dec_digits :: "nat \<Rightarrow> byte list" where
  "dec_digits n =
     (if n < 10 then [of_nat (48 + n)]
      else dec_digits (n div 10) @ [of_nat (48 + n mod 10)])"
  by pat_completeness auto
termination
  by (relation "measure id") auto

declare dec_digits.simps [simp del]

definition print_PRId64 :: "u64 \<Rightarrow> byte list" where
  "print_PRId64 v =
     (if sint v < 0 then 0x2D # dec_digits (nat (- sint v)) else dec_digits (nat (sint v)))"

definition unpack_integer_value :: "byte list \<Rightarrow> rstream \<Rightarrow> status \<times> rstream \<times> byte list" where
  "unpack_integer_value out inp =
     (case unpack_integer inp of
        (None, inp') \<Rightarrow> (Fail, inp', out)
      | (Some v, inp') \<Rightarrow> (Ok, inp', out @ print_PRId64 v))"



subsection \<open>Minimal signed width and round trip\<close>

text \<open>
  \<open>sign_ext_from k v\<close>: every bit of \<open>v\<close> from position \<open>k\<close> upwards equals the
  sign bit, that is, \<open>v\<close> is the sign extension of its low \<open>k + 1\<close> bits.
\<close>

definition sign_ext_from :: "nat \<Rightarrow> u64 \<Rightarrow> bool" where
  "sign_ext_from k v \<longleftrightarrow> (\<forall>j. k \<le> j \<and> j < 64 \<longrightarrow> bit v j = bit v 63)"

lemma sign_ext_fromD: "sign_ext_from k v \<Longrightarrow> k \<le> j \<Longrightarrow> j < 64 \<Longrightarrow> bit v j = bit v 63"
  unfolding sign_ext_from_def by blast

lemma sign_ext_fromI: "(\<And>j. k \<le> j \<Longrightarrow> j < 64 \<Longrightarrow> bit v j = bit v 63) \<Longrightarrow> sign_ext_from k v"
  unfolding sign_ext_from_def by blast

lemma bit_sint_u64: "bit (sint (v :: u64)) j = (if j < 64 then bit v j else bit v 63)"
proof (cases "j < 64")
  case True
  then show ?thesis by (simp add: bit_sint_iff)
next
  case False
  then have "\<not> bit v j" using bit_imp_le_length [of v j] by auto
  with False show ?thesis by (simp add: bit_sint_iff)
qed

lemma bit_signed_take_bit_sint:
  "bit (signed_take_bit k (sint (v :: u64))) j = bit (sint v) (min k j)"
  by (simp add: bit_signed_take_bit_iff)

lemma fits_iff_sign_ext:
  assumes "k \<le> 63"
  shows "(- (2 ^ k) \<le> sint v \<and> sint v < 2 ^ k) \<longleftrightarrow> sign_ext_from k (v :: u64)"
proof -
  have k64: "k < 64" using assms by simp
  have "signed_take_bit k (sint v) = sint v \<longleftrightarrow> sign_ext_from k v"
  proof
    assume e: "signed_take_bit k (sint v) = sint v"
    have a: "bit v j = bit v k" if "k \<le> j" "j < 64" for j
    proof -
      have "bit (sint v) j = bit (sint v) (min k j)"
        using bit_signed_take_bit_sint [of k v j] e by simp
      with that k64 show ?thesis by (simp add: bit_sint_u64 min_def)
    qed
    show "sign_ext_from k v"
    proof (rule sign_ext_fromI)
      fix j assume j: "k \<le> j" "j < 64"
      have "bit v j = bit v k" using j by (rule a)
      moreover have "bit v 63 = bit v k" using assms by (intro a) simp_all
      ultimately show "bit v j = bit v 63" by simp
    qed
  next
    assume se: "sign_ext_from k v"
    have k63: "bit v k = bit v 63" using se order_refl k64 by (rule sign_ext_fromD)
    have sk: "bit (sint v) k = bit v 63"
      using k64 k63 by (simp only: bit_sint_u64) simp
    show "signed_take_bit k (sint v) = sint v"
    proof (rule bit_eqI)
      fix j
      show "bit (signed_take_bit k (sint v)) j = bit (sint v) j"
      proof (cases "j \<le> k")
        case True
        then show ?thesis by (simp add: bit_signed_take_bit_sint min_def)
      next
        case False
        then have m: "min k j = k" by simp
        have sj: "bit (sint v) j = bit v 63"
        proof (cases "j < 64")
          case True
          then have "bit (sint v) j = bit v j" by (simp only: bit_sint_u64 if_True)
          also have "\<dots> = bit v 63"
          proof (rule sign_ext_fromD [OF se])
            show "k \<le> j" using False by simp
            show "j < 64" by (rule True)
          qed
          finally show ?thesis .
        next
          case ge: False
          then show ?thesis by (simp only: bit_sint_u64 if_False)
        qed
        show ?thesis by (simp only: bit_signed_take_bit_sint m sk sj)
      qed
    qed
  qed
  then show ?thesis
    by (simp only: signed_take_bit_int_eq_self_iff)
qed

lemma sign_ext_from_mono: "sign_ext_from k v \<Longrightarrow> k \<le> k' \<Longrightarrow> sign_ext_from k' v"
  unfolding sign_ext_from_def by (meson order_trans)

lemma sign_ext_from_63: "sign_ext_from 63 v"
proof (rule sign_ext_fromI)
  fix j :: nat assume "63 \<le> j" "j < 64"
  then have "j = 63" by simp
  then show "bit v j = bit v 63" by simp
qed

lemma int64_le_bytes_nth: "k < 8 \<Longrightarrow> int64_le_bytes v ! k = ucast (drop_bit (8 * k) v)"
  by (simp add: int64_le_bytes_def)

lemma byte_eq_0_iff:
  "(ucast (drop_bit (8 * k) (v :: u64)) :: byte) = 0 \<longleftrightarrow> (\<forall>j<8. \<not> bit v (8 * k + j))"
proof
  assume h: "(ucast (drop_bit (8 * k) v) :: byte) = 0"
  show "\<forall>j<8. \<not> bit v (8 * k + j)"
  proof (intro allI impI)
    fix j :: nat assume "j < 8"
    then have "bit (ucast (drop_bit (8 * k) v) :: byte) j = bit v (8 * k + j)"
      by (simp add: bit_ucast_iff bit_drop_bit_eq)
    with h show "\<not> bit v (8 * k + j)" by simp
  qed
next
  assume h: "\<forall>j<8. \<not> bit v (8 * k + j)"
  show "(ucast (drop_bit (8 * k) v) :: byte) = 0"
  proof (rule bit_eqI)
    fix j assume "possible_bit TYPE(byte) j"
    then have "j < 8" by simp
    then have "bit (ucast (drop_bit (8 * k) v) :: byte) j = bit v (8 * k + j)"
      by (simp add: bit_ucast_iff bit_drop_bit_eq)
    with h \<open>j < 8\<close> show "bit (ucast (drop_bit (8 * k) v) :: byte) j = bit (0 :: byte) j" by simp
  qed
qed

lemma byte_eq_FF_iff:
  "(ucast (drop_bit (8 * k) (v :: u64)) :: byte) = 0xFF \<longleftrightarrow> (\<forall>j<8. bit v (8 * k + j))"
proof
  assume h: "(ucast (drop_bit (8 * k) v) :: byte) = 0xFF"
  show "\<forall>j<8. bit v (8 * k + j)"
  proof (intro allI impI)
    fix j :: nat assume j: "j < 8"
    then have "bit (ucast (drop_bit (8 * k) v) :: byte) j = bit v (8 * k + j)"
      by (simp add: bit_ucast_iff bit_drop_bit_eq)
    moreover have "bit (0xFF :: byte) j" using j by (simp add: bit_255_int)
    ultimately show "bit v (8 * k + j)" using h by simp
  qed
next
  assume h: "\<forall>j<8. bit v (8 * k + j)"
  show "(ucast (drop_bit (8 * k) v) :: byte) = 0xFF"
  proof (rule bit_eqI)
    fix j assume "possible_bit TYPE(byte) j"
    then have j: "j < 8" by simp
    then have "bit (ucast (drop_bit (8 * k) v) :: byte) j = bit v (8 * k + j)"
      by (simp add: bit_ucast_iff bit_drop_bit_eq)
    moreover have "bit (0xFF :: byte) j" using j by (simp add: bit_255_int)
    ultimately show "bit (ucast (drop_bit (8 * k) v) :: byte) j = bit (0xFF :: byte) j"
      using h j by simp
  qed
qed

lemma byte_top_bit_iff:
  "(ucast (drop_bit (8 * k) (v :: u64)) :: byte) AND 0x80 = 0 \<longleftrightarrow> \<not> bit v (8 * k + 7)"
proof -
  have e: "(0x80 :: byte) = 2 ^ 7" by simp
  have "(ucast (drop_bit (8 * k) v) :: byte) AND 2 ^ 7 = 0
      \<longleftrightarrow> \<not> bit (ucast (drop_bit (8 * k) v) :: byte) 7"
    by (rule and_exp_eq_0_iff_not_bit)
  moreover have "bit (ucast (drop_bit (8 * k) v) :: byte) 7 = bit v (8 * k + 7)"
    by (simp add: bit_ucast_iff bit_drop_bit_eq)
  ultimately show ?thesis by (simp only: e)
qed

lemma neg_iff_top_bit: "sint (v :: u64) < 0 \<longleftrightarrow> bit v 63"
  using bit_last_iff [of v] by simp

lemma sle_0_iff: "0 \<le>s (v :: u64) \<longleftrightarrow> \<not> bit v 63"
  using neg_iff_top_bit [of v] by (simp add: word_sle_eq not_less [symmetric])

lemma sless_0_iff: "(v :: u64) <s 0 \<longleftrightarrow> bit v 63"
  using neg_iff_top_bit [of v] by (simp add: word_sless_alt)

lemma width_step_iff:
  assumes "2 \<le> num" "num \<le> 8"
  shows "((0 \<le>s v \<and> int64_le_bytes v ! (num - 1) = 0x00 \<and> int64_le_bytes v ! (num - 2) AND 0x80 = 0) \<or>
          (v <s 0 \<and> int64_le_bytes v ! (num - 1) = 0xFF \<and> int64_le_bytes v ! (num - 2) AND 0x80 \<noteq> 0))
         \<longleftrightarrow> (\<forall>j. 8 * num - 9 \<le> j \<and> j < 8 * num \<longrightarrow> bit v j = bit v 63)"
proof -
  obtain m where m: "num = m + 2" using assms(1) by (metis add.commute le_Suc_ex)
  define s where "s = bit v 63"
  have r: "(\<forall>j. 8 * num - 9 \<le> j \<and> j < 8 * num \<longrightarrow> P j)
        \<longleftrightarrow> P (8 * m + 7) \<and> (\<forall>j<8. P (8 * (m + 1) + j))" for P
  proof
    assume h: "\<forall>j. 8 * num - 9 \<le> j \<and> j < 8 * num \<longrightarrow> P j"
    have "P (8 * m + 7)" using h m by simp
    moreover have "P (8 * (m + 1) + j)" if "j < 8" for j using h m that by simp
    ultimately show "P (8 * m + 7) \<and> (\<forall>j<8. P (8 * (m + 1) + j))" by blast
  next
    assume h: "P (8 * m + 7) \<and> (\<forall>j<8. P (8 * (m + 1) + j))"
    show "\<forall>j. 8 * num - 9 \<le> j \<and> j < 8 * num \<longrightarrow> P j"
    proof (rule allI, rule impI)
      fix j assume j: "8 * num - 9 \<le> j \<and> j < 8 * num"
      show "P j"
      proof (cases "j = 8 * m + 7")
        case True
        with h show ?thesis by simp
      next
        case False
        with j m have "j - 8 * (m + 1) < 8" and e: "j = 8 * (m + 1) + (j - 8 * (m + 1))" by auto
        with h have "P (8 * (m + 1) + (j - 8 * (m + 1)))" by blast
        with e show ?thesis by simp
      qed
    qed
  qed
  have b1: "int64_le_bytes v ! (num - 1) = ucast (drop_bit (8 * (m + 1)) v)"
    using assms m by (simp add: int64_le_bytes_nth)
  have b2: "int64_le_bytes v ! (num - 2) = ucast (drop_bit (8 * m) v)"
    using assms m by (simp add: int64_le_bytes_nth)
  have "((\<not> s \<and> (\<forall>j<8. \<not> bit v (8 * (m + 1) + j)) \<and> \<not> bit v (8 * m + 7)) \<or>
         (s \<and> (\<forall>j<8. bit v (8 * (m + 1) + j)) \<and> bit v (8 * m + 7)))
        \<longleftrightarrow> (bit v (8 * m + 7) = s \<and> (\<forall>j<8. bit v (8 * (m + 1) + j) = s))"
    by blast
  then show ?thesis
    unfolding r b1 b2 byte_eq_0_iff byte_eq_FF_iff byte_top_bit_iff sle_0_iff sless_0_iff
      s_def [symmetric]
    by simp
qed

lemma pack_integer_width_spec:
  assumes "1 \<le> num" "num \<le> 8" "sign_ext_from (8 * num - 1) v"
  shows "1 \<le> pack_integer_width v (int64_le_bytes v) num
       \<and> pack_integer_width v (int64_le_bytes v) num \<le> num
       \<and> sign_ext_from (8 * pack_integer_width v (int64_le_bytes v) num - 1) v
       \<and> (1 < pack_integer_width v (int64_le_bytes v) num \<longrightarrow>
            \<not> sign_ext_from (8 * (pack_integer_width v (int64_le_bytes v) num - 1) - 1) v)"
  using assms
proof (induction num)
  case 0
  then show ?case by simp
next
  case (Suc n)
  let ?b = "int64_le_bytes v"
  let ?c = "(0 \<le>s v \<and> ?b ! (Suc n - 1) = 0x00 \<and> ?b ! (Suc n - 2) AND 0x80 = 0) \<or>
            (v <s 0 \<and> ?b ! (Suc n - 1) = 0xFF \<and> ?b ! (Suc n - 2) AND 0x80 \<noteq> 0)"
  show ?case
  proof (cases "Suc n > 1")
    case False
    then have "pack_integer_width v ?b (Suc n) = Suc n"
      by (subst pack_integer_width.simps) simp
    with False Suc.prems show ?thesis by simp
  next
    case True
    then have n2: "2 \<le> Suc n" by simp
    have step: "?c \<longleftrightarrow> (\<forall>j. 8 * Suc n - 9 \<le> j \<and> j < 8 * Suc n \<longrightarrow> bit v j = bit v 63)"
      using n2 Suc.prems(2) by (rule width_step_iff)
    have unf: "pack_integer_width v ?b (Suc n) =
        (if ?c then pack_integer_width v ?b n else Suc n)"
      by (subst pack_integer_width.simps) (simp only: True Let_def if_True diff_Suc_1)
    show ?thesis
    proof (cases ?c)
      case c: True
      have e: "pack_integer_width v ?b (Suc n) = pack_integer_width v ?b n"
        using c by (simp only: unf if_True)
      have "sign_ext_from (8 * n - 1) v"
      proof (rule sign_ext_fromI)
        fix j assume j: "8 * n - 1 \<le> j" "j < 64"
        show "bit v j = bit v 63"
        proof (cases "j < 8 * Suc n")
          case True
          with j c step show ?thesis by simp
        next
          case False
          then have "8 * Suc n - 1 \<le> j" by simp
          with Suc.prems(3) show ?thesis using j(2) by (rule sign_ext_fromD)
        qed
      qed
      moreover have "1 \<le> n" "n \<le> 8" using True Suc.prems by simp_all
      ultimately have ih: "1 \<le> pack_integer_width v ?b n
         \<and> pack_integer_width v ?b n \<le> n
         \<and> sign_ext_from (8 * pack_integer_width v ?b n - 1) v
         \<and> (1 < pack_integer_width v ?b n \<longrightarrow>
              \<not> sign_ext_from (8 * (pack_integer_width v ?b n - 1) - 1) v)"
        using Suc.IH by blast
      then show ?thesis unfolding e by auto
    next
      case nc: False
      have e: "pack_integer_width v ?b (Suc n) = Suc n"
        using nc by (simp only: unf if_False)
      from nc step obtain j where j: "8 * Suc n - 9 \<le> j" "j < 8 * Suc n" "bit v j \<noteq> bit v 63"
        by blast
      have "\<not> sign_ext_from (8 * (Suc n - 1) - 1) v"
      proof
        assume "sign_ext_from (8 * (Suc n - 1) - 1) v"
        moreover have "8 * (Suc n - 1) - 1 \<le> j" using j(1) by simp
        moreover have "j < 64" using j(2) Suc.prems(2) by simp
        ultimately have "bit v j = bit v 63" by (rule sign_ext_fromD)
        with j(3) show False by simp
      qed
      with Suc.prems show ?thesis unfolding e by simp
    qed
  qed
qed

lemma assemble_le_append:
  "assemble_le i (xs @ [b]) acc =
     assemble_le i xs acc OR push_bit (8 * (i + length xs)) (ucast b)"
  by (induction xs arbitrary: i acc) (simp_all add: add.assoc)

lemma take_bit_next_byte:
  "take_bit (8 * n) v OR push_bit (8 * n) (ucast (ucast (drop_bit (8 * n) v) :: byte))
     = take_bit (8 * Suc n) (v :: u64)"
proof (rule bit_eqI)
  fix j assume "possible_bit TYPE(u64) j"
  then have j64: "j < 64" by simp
  show "bit (take_bit (8 * n) v OR push_bit (8 * n) (ucast (ucast (drop_bit (8 * n) v) :: byte))) j
      = bit (take_bit (8 * Suc n) v) j"
  proof (cases "j < 8 * n")
    case True
    then show ?thesis by (simp add: bit_simps)
  next
    case False
    then have e: "8 * n + (j - 8 * n) = j" by simp
    from False j64 show ?thesis by (auto simp: bit_simps e)
  qed
qed

lemma assemble_take_bytes:
  "n \<le> 8 \<Longrightarrow> assemble_le 0 (take n (int64_le_bytes v)) 0 = take_bit (8 * n) v"
proof (induction n)
  case 0
  then show ?case by simp
next
  case (Suc n)
  then have n: "n < length (int64_le_bytes v)" "n < 8" "n \<le> 8"
    by (simp_all add: int64_le_bytes_def)
  have "take (Suc n) (int64_le_bytes v) = take n (int64_le_bytes v) @ [int64_le_bytes v ! n]"
    using n(1) by (rule take_Suc_conv_app_nth)
  then have "assemble_le 0 (take (Suc n) (int64_le_bytes v)) 0
      = take_bit (8 * n) v OR push_bit (8 * n) (ucast (ucast (drop_bit (8 * n) v) :: byte))"
    using Suc.IH [OF n(3)] n by (simp add: assemble_le_append int64_le_bytes_nth min_def)
  then show ?case by (simp only: take_bit_next_byte)
qed

lemma sign_extend_shift:
  assumes n: "1 \<le> n" "n < 8" and se: "sign_ext_from (8 * n - 1) v"
  shows "signed_drop_bit ((8 - n) * 8) (push_bit ((8 - n) * 8) (take_bit (8 * n) v)) = v"
proof (rule bit_eqI)
  fix j assume "possible_bit TYPE(u64) j"
  then have j64: "j < 64" by simp
  let ?s = "(8 - n) * 8"
  have s: "?s = 64 - 8 * n" "?s \<le> 63" "64 - ?s = 8 * n" using n by auto
  show "bit (signed_drop_bit ?s (push_bit ?s (take_bit (8 * n) v))) j = bit v j"
  proof (cases "j < 8 * n")
    case True
    then have "?s + j < 64" using s by simp
    with True j64 n show ?thesis
      by (simp add: bit_signed_drop_bit_iff bit_push_bit_iff bit_take_bit_iff s(3))
  next
    case False
    then have a: "bit v j = bit v 63" using se j64 by (intro sign_ext_fromD [OF se]) simp_all
    have "8 * n - 1 < 64" using n by simp
    then have b: "bit v (8 * n - 1) = bit v 63" by (intro sign_ext_fromD [OF se]) simp_all
    have e: "63 - ?s = 8 * n - 1" using n by auto
    have "bit (signed_drop_bit ?s (push_bit ?s (take_bit (8 * n) v))) j
        = bit (push_bit ?s (take_bit (8 * n) v)) 63"
      using False j64 by (simp add: bit_signed_drop_bit_iff s(3))
    also have "\<dots> = bit v (8 * n - 1)"
      using s(2) n by (simp add: bit_push_bit_iff bit_take_bit_iff e)
    finally show ?thesis using a b by simp
  qed
qed

lemma take_bit_nonneg_fits:
  assumes n: "1 \<le> n" "n \<le> 8" and se: "sign_ext_from (8 * n - 1) v"
    and top: "n = 8 \<or> \<not> bit v (8 * n - 1)"
  shows "take_bit (8 * n) v = v"
proof (cases "n = 8")
  case True
  then show ?thesis by (simp add: take_bit_word_eq_self)
next
  case False
  with top have t: "\<not> bit v (8 * n - 1)" by simp
  have "8 * n - 1 < 64" using n by simp
  then have "bit v (8 * n - 1) = bit v 63" by (intro sign_ext_fromD [OF se]) simp_all
  with t have s63: "\<not> bit v 63" by simp
  show ?thesis
  proof (rule bit_eqI)
    fix j assume "possible_bit TYPE(u64) j"
    then have j64: "j < 64" by simp
    show "bit (take_bit (8 * n) v) j = bit v j"
    proof (cases "j < 8 * n")
      case True
      then show ?thesis by (simp add: bit_take_bit_iff)
    next
      case False
      then have "bit v j = bit v 63" using j64 by (intro sign_ext_fromD [OF se]) simp_all
      with s63 False show ?thesis by (simp add: bit_take_bit_iff)
    qed
  qed
qed

lemma unat_of_nat_le8: "n \<le> 8 \<Longrightarrow> unat (of_nat n :: u64) = n"
  by (simp add: unat_of_nat)

lemma take_int64_le_bytes:
  "n \<le> 8 \<Longrightarrow> take n (int64_le_bytes v) = map (\<lambda>k. ucast (drop_bit (8 * k) v)) [0..<n]"
  by (simp add: int64_le_bytes_def take_map min_def)

lemma unpack_integer_generic:
  assumes n: "1 \<le> n" "n \<le> 8" and lb: "length bs = n"
  shows "unpack_integer \<lparr>buf = pre @ (pack_nnint (of_nat n) @ bs) @ post, pos = length pre\<rparr> =
     (Some (if n < 8 \<and> bs ! (n - 1) AND 0x80 \<noteq> 0
            then signed_drop_bit ((8 - n) * 8) (push_bit ((8 - n) * 8) (assemble_le 0 bs 0))
            else assemble_le 0 bs 0),
      \<lparr>buf = pre @ (pack_nnint (of_nat n) @ bs) @ post,
        pos = length pre + length (pack_nnint (of_nat n) @ bs)\<rparr>)"
proof -
  let ?N = "of_nat n :: u64"
  let ?pk = "pack_nnint ?N"
  let ?buf = "pre @ (?pk @ bs) @ post"
  have un: "unat ?N = n" using n by (simp add: unat_of_nat_le8)
  have N0: "?N \<noteq> 0" using un n by (metis not_one_le_zero unat_0)
  have N8: "\<not> ?N > 8" using un n by (simp add: word_less_nat_alt)
  have Nlt: "?N < 8 \<longleftrightarrow> n < 8" using un by (simp add: word_less_nat_alt)
  have s1: "unpack_nnint \<lparr>buf = ?buf, pos = length pre\<rparr> =
      (Some ?N, \<lparr>buf = ?buf, pos = length pre + length ?pk\<rparr>)"
    using unpack_pack_nnint [of pre ?N "bs @ post"] by simp
  have s2: "fread n \<lparr>buf = ?buf, pos = length pre + length ?pk\<rparr> =
      (bs, \<lparr>buf = ?buf, pos = length pre + length (?pk @ bs)\<rparr>)"
    using lb by (simp add: fread_def Let_def)
  show ?thesis
    unfolding unpack_integer_def s1
    by (simp add: N0 N8 Nlt un s2 lb Let_def del: append_assoc)
qed

lemma unpack_integer_of_bytes:
  assumes n: "1 \<le> n" "n \<le> 8" and se: "sign_ext_from (8 * n - 1) v"
  defines "payload \<equiv> pack_nnint (of_nat n) @ take n (int64_le_bytes v)"
  shows "unpack_integer \<lparr>buf = pre @ payload @ post, pos = length pre\<rparr> =
           (Some v, \<lparr>buf = pre @ payload @ post, pos = length pre + length payload\<rparr>)"
proof -
  let ?bs = "take n (int64_le_bytes v)"
  have lb: "length ?bs = n" using n by (simp add: int64_le_bytes_def)
  have asm: "assemble_le 0 ?bs 0 = take_bit (8 * n) v"
    using n(2) by (rule assemble_take_bytes)
  have "?bs ! (n - 1) = int64_le_bytes v ! (n - 1)" using n by simp
  also have "\<dots> = ucast (drop_bit (8 * (n - 1)) v)" using n by (simp add: int64_le_bytes_nth)
  finally have b: "?bs ! (n - 1) = ucast (drop_bit (8 * (n - 1)) v)" .
  have "8 * (n - 1) + 7 = 8 * n - 1" using n by simp
  then have top: "?bs ! (n - 1) AND 0x80 \<noteq> 0 \<longleftrightarrow> bit v (8 * n - 1)"
    using byte_top_bit_iff [of "n - 1" v] by (simp only: b) simp
  have "(if n < 8 \<and> ?bs ! (n - 1) AND 0x80 \<noteq> 0
            then signed_drop_bit ((8 - n) * 8) (push_bit ((8 - n) * 8) (assemble_le 0 ?bs 0))
            else assemble_le 0 ?bs 0) = v"
  proof (cases "n < 8 \<and> bit v (8 * n - 1)")
    case True
    then have "signed_drop_bit ((8 - n) * 8) (push_bit ((8 - n) * 8) (take_bit (8 * n) v)) = v"
      using n se by (intro sign_extend_shift) simp_all
    with True show ?thesis by (simp only: top asm) simp
  next
    case False
    then have "n = 8 \<or> \<not> bit v (8 * n - 1)" using n by auto
    with n se have "take_bit (8 * n) v = v" by (rule take_bit_nonneg_fits)
    with False show ?thesis by (simp only: top asm) simp
  qed
  then show ?thesis
    unfolding payload_def using unpack_integer_generic [OF n lb, of pre post] by simp
qed

lemma pack_integer_width_8:
  "1 \<le> pack_integer_width v (int64_le_bytes v) 8
       \<and> pack_integer_width v (int64_le_bytes v) 8 \<le> 8
       \<and> sign_ext_from (8 * pack_integer_width v (int64_le_bytes v) 8 - 1) v
       \<and> (1 < pack_integer_width v (int64_le_bytes v) 8 \<longrightarrow>
            \<not> sign_ext_from (8 * (pack_integer_width v (int64_le_bytes v) 8 - 1) - 1) v)"
  by (rule pack_integer_width_spec) (simp_all add: sign_ext_from_63)

text \<open>
  Claim C3. For every integer \<open>x\<close> in \<open>[-2^63, 2^63)\<close>, held in an \<^verbatim>\<open>int64_t\<close>,
  the payload \<^verbatim>\<open>pack_integer_value\<close> writes is an NNINT width \<open>n\<close> followed
  by the \<open>n\<close> low little-endian bytes of the value, where \<open>n\<close> is the smallest
  width in \<open>1..8\<close> such that \<open>x\<close> is representable in \<open>n\<close> two's-complement
  bytes; \<^verbatim>\<open>unpack_integer_value\<close> reads that payload back, sign-extends it and
  reproduces exactly \<open>x\<close> (printed in decimal).
\<close>

theorem pack_integer_value_minimal_roundtrip:
  fixes x :: int
  assumes "- (2 ^ 63) \<le> x" and "x < 2 ^ 63"
  defines "i \<equiv> (word_of_int x :: u64)"
  shows "sint i = x \<and>
    (\<exists>n. 1 \<le> n \<and> n \<le> 8
       \<and> (- (2 ^ (8 * n - 1)) \<le> x \<and> x < 2 ^ (8 * n - 1))
       \<and> (\<forall>m. 1 \<le> m \<and> m < n \<longrightarrow> \<not> (- (2 ^ (8 * m - 1)) \<le> x \<and> x < 2 ^ (8 * m - 1)))
       \<and> pack_integer_value i =
            pack_nnint (of_nat n) @ map (\<lambda>k. ucast (drop_bit (8 * k) i)) [0..<n])
    \<and> unpack_integer \<lparr>buf = pre @ pack_integer_value i @ post, pos = length pre\<rparr> =
        (Some i, \<lparr>buf = pre @ pack_integer_value i @ post,
                  pos = length pre + length (pack_integer_value i)\<rparr>)
    \<and> unpack_integer_value out \<lparr>buf = pre @ pack_integer_value i @ post, pos = length pre\<rparr> =
        (Ok, \<lparr>buf = pre @ pack_integer_value i @ post,
               pos = length pre + length (pack_integer_value i)\<rparr>, out @ print_PRId64 i)"
proof -
  have sx: "sint i = x"
    unfolding i_def using assms(1,2) by (simp add: sint_sbintrunc' signed_take_bit_int_eq_self)
  let ?n = "pack_integer_width i (int64_le_bytes i) 8"
  from pack_integer_width_8 [of i]
  have n1: "1 \<le> ?n" and n8: "?n \<le> 8" and se: "sign_ext_from (8 * ?n - 1) i"
    and least: "1 < ?n \<longrightarrow> \<not> sign_ext_from (8 * (?n - 1) - 1) i" by blast+
  have pv: "pack_integer_value i = pack_nnint (of_nat ?n) @ take ?n (int64_le_bytes i)"
    by (simp add: pack_integer_value_def Let_def)
  have "8 * ?n - 1 \<le> 63" using n8 by simp
  then have fits: "- (2 ^ (8 * ?n - 1)) \<le> x \<and> x < 2 ^ (8 * ?n - 1)"
    using fits_iff_sign_ext [of "8 * ?n - 1" i] se sx by simp
  have min: "\<not> (- (2 ^ (8 * m - 1)) \<le> x \<and> x < 2 ^ (8 * m - 1))" if m: "1 \<le> m \<and> m < ?n" for m
  proof
    assume "- (2 ^ (8 * m - 1)) \<le> x \<and> x < 2 ^ (8 * m - 1)"
    moreover have "8 * m - 1 \<le> 63" using m n8 by arith
    ultimately have "sign_ext_from (8 * m - 1) i"
      using fits_iff_sign_ext [of "8 * m - 1" i] sx by simp
    moreover have "8 * m - 1 \<le> 8 * (?n - 1) - 1" using m by arith
    ultimately have "sign_ext_from (8 * (?n - 1) - 1) i" by (rule sign_ext_from_mono)
    with least m show False by simp
  qed
  have enc: "pack_integer_value i =
      pack_nnint (of_nat ?n) @ map (\<lambda>k. ucast (drop_bit (8 * k) i)) [0..<?n]"
    using n8 by (simp add: pv take_int64_le_bytes)
  have dec: "unpack_integer \<lparr>buf = pre @ pack_integer_value i @ post, pos = length pre\<rparr> =
        (Some i, \<lparr>buf = pre @ pack_integer_value i @ post,
                  pos = length pre + length (pack_integer_value i)\<rparr>)"
    unfolding pv using n1 n8 se by (rule unpack_integer_of_bytes)
  have prt: "unpack_integer_value out \<lparr>buf = pre @ pack_integer_value i @ post, pos = length pre\<rparr> =
        (Ok, \<lparr>buf = pre @ pack_integer_value i @ post,
               pos = length pre + length (pack_integer_value i)\<rparr>, out @ print_PRId64 i)"
    by (simp add: unpack_integer_value_def dec)
  from n1 n8 fits min enc have "\<exists>n. 1 \<le> n \<and> n \<le> 8
       \<and> (- (2 ^ (8 * n - 1)) \<le> x \<and> x < 2 ^ (8 * n - 1))
       \<and> (\<forall>m. 1 \<le> m \<and> m < n \<longrightarrow> \<not> (- (2 ^ (8 * m - 1)) \<le> x \<and> x < 2 ^ (8 * m - 1)))
       \<and> pack_integer_value i =
            pack_nnint (of_nat n) @ map (\<lambda>k. ucast (drop_bit (8 * k) i)) [0..<n]"
    by blast
  with sx dec prt show ?thesis by blast
qed

theorem pack_integer_value_minimal_roundtrip_witness:
  "sint (word_of_int (- 129) :: u64) = - 129
   \<and> pack_integer_value (word_of_int (- 129)) = [1, 2, 0x7F, 0xFF]
   \<and> unpack_integer \<lparr>buf = [1, 2, 0x7F, 0xFF], pos = 0\<rparr> =
        (Some (word_of_int (- 129)), \<lparr>buf = [1, 2, 0x7F, 0xFF], pos = 4\<rparr>)
   \<and> unpack_integer_value [] \<lparr>buf = [1, 2, 0x7F, 0xFF], pos = 0\<rparr> =
        (Ok, \<lparr>buf = [1, 2, 0x7F, 0xFF], pos = 4\<rparr>, [0x2D, 0x31, 0x32, 0x39])"
proof -
  have e: "pack_integer_value (word_of_int (- 129)) = [1, 2, 0x7F, 0xFF]" by code_simp
  have p: "print_PRId64 (word_of_int (- 129)) = [0x2D, 0x31, 0x32, 0x39]" by code_simp
  have "- (2 ^ 63) \<le> (- 129 :: int)" "(- 129 :: int) < 2 ^ 63" by simp_all
  from pack_integer_value_minimal_roundtrip [OF this, of "[]" "[]" "[]"]
  show ?thesis unfolding e p by simp
qed
section \<open>Dictionaries\<close>

text \<open>
  \<^verbatim>\<open>bej_dictionary_t\<close>: the raw bytes and their number. A \<^verbatim>\<open>NULL\<close>
  dictionary pointer is \<open>None\<close>.
\<close>

record bej_dictionary =
  bytes :: "byte list"
  dict_size :: nat

definition read_u16 :: "byte list \<Rightarrow> nat \<Rightarrow> u16" where
  "read_u16 p off = ucast (p ! off) OR push_bit 8 (ucast (p ! (off + 1)))"

definition validate_dictionary_header :: "bej_dictionary \<Rightarrow> bool" where
  "validate_dictionary_header dict \<longleftrightarrow> dict_size dict \<ge> 12"

text \<open>
  \<^verbatim>\<open>read_dictionary_header\<close>: the entry count and the offset of the name table,
  or \<open>None\<close> for the return value 0.
\<close>

definition read_dictionary_header :: "bej_dictionary \<Rightarrow> (u16 \<times> nat) option" where
  "read_dictionary_header dict =
     (if \<not> validate_dictionary_header dict then None
      else (let entry_count = read_u16 (bytes dict) 2;
                entries_size = unat entry_count * 10;
                name_table_offset = 12 + entries_size
            in if name_table_offset \<le> dict_size dict
               then Some (entry_count, name_table_offset) else None))"

text \<open>
  \<^verbatim>\<open>bej_dictionary_load\<close>. The argument is the content of the file at the path,
  \<open>None\<close> when it cannot be opened; seeking, reading and allocation are taken
  to succeed. \<open>None\<close> is the result \<^verbatim>\<open>NULL\<close>.
\<close>

definition bej_dictionary_load :: "byte list option \<Rightarrow> bej_dictionary option" where
  "bej_dictionary_load file =
     (case file of
        None \<Rightarrow> None
      | Some content \<Rightarrow>
          (let file_size = int (length content) in
           if file_size \<le> 0 then None
           else (let temp_dict = \<lparr>bytes = content, dict_size = nat file_size\<rparr> in
                 if \<not> validate_dictionary_header temp_dict then None
                 else Some \<lparr>bytes = content, dict_size = nat file_size\<rparr>)))"

text \<open>
  \<^verbatim>\<open>bej_dict_entry_t\<close>. The name is a pointer into the dictionary bytes; it is
  modelled by the C string found there (the bytes up to the first NUL, or up
  to the end of the buffer, where the C code would read past it).
\<close>

record bej_dict_entry =
  format :: byte
  flags :: byte
  sequence :: u16
  child_pointer :: u16
  child_count :: u16
  name :: "byte list option"

definition c_string_at :: "byte list \<Rightarrow> nat \<Rightarrow> byte list" where
  "c_string_at bs off = takeWhile (\<lambda>b. b \<noteq> 0) (drop off bs)"

text \<open>\<^verbatim>\<open>bej_dict_stream_t\<close>: the cursor over dictionary entries.\<close>

record bej_dict_stream =
  st_bytes :: "byte list option"
  st_size :: nat
  st_index :: nat
  st_child_count :: int
  st_current_entry :: int

definition bej_dict_stream_init :: "bej_dictionary option \<Rightarrow> bej_dict_stream" where
  "bej_dict_stream_init dict =
     (let s = \<lparr>st_bytes = map_option bytes dict,
               st_size = (case dict of None \<Rightarrow> 0 | Some d \<Rightarrow> dict_size d),
               st_index = 0, st_child_count = 0, st_current_entry = 0\<rparr>
      in case dict of
           None \<Rightarrow> s
         | Some d \<Rightarrow>
             if validate_dictionary_header d \<and> read_dictionary_header d \<noteq> None
             then s\<lparr>st_index := 12, st_child_count := 1\<rparr>
             else s)"

definition bej_dict_stream_init_subset ::
    "bej_dictionary option \<Rightarrow> u16 \<Rightarrow> u16 \<Rightarrow> bej_dict_stream" where
  "bej_dict_stream_init_subset dict offset cnt =
     \<lparr>st_bytes = map_option bytes dict,
      st_size = (case dict of None \<Rightarrow> 0 | Some d \<Rightarrow> dict_size d),
      st_index = unat offset,
      st_child_count = (if cnt = 0xFFFF then - 1 else uint cnt),
      st_current_entry = 0\<rparr>"

definition bej_dict_stream_has_entry :: "bej_dict_stream \<Rightarrow> bool" where
  "bej_dict_stream_has_entry s =
     (case st_bytes s of
        None \<Rightarrow> False
      | Some _ \<Rightarrow>
          if st_child_count s < 0 then st_index s + 10 \<le> st_size s
          else st_current_entry s < st_child_count s)"

text \<open>
  \<^verbatim>\<open>bej_dict_stream_next\<close>: the entry read and the advanced cursor, or \<open>None\<close>
  for the return value 0.
\<close>

definition bej_dict_stream_next ::
    "bej_dict_stream \<Rightarrow> (bej_dict_entry \<times> bej_dict_stream) option" where
  "bej_dict_stream_next s =
     (if \<not> bej_dict_stream_has_entry s then None
      else if st_index s + 10 > st_size s then None
      else (case st_bytes s of
              None \<Rightarrow> None
            | Some bs \<Rightarrow>
               (let entry_data = drop (st_index s) bs;
                    format_flags = entry_data ! 0;
                    name_length = entry_data ! 7;
                    name_offset = read_u16 entry_data 8;
                    dest = \<lparr>format = drop_bit 4 format_flags,
                            flags = format_flags AND 0x0F,
                            sequence = read_u16 entry_data 1,
                            child_pointer = read_u16 entry_data 3,
                            child_count = read_u16 entry_data 5,
                            name = (if name_length > 0 \<and> unat name_offset < st_size s
                                    then Some (c_string_at bs (unat name_offset))
                                    else None)\<rparr>
                in Some (dest,
                     s\<lparr>st_index := st_index s + 10,
                       st_current_entry :=
                         (if st_child_count s \<ge> 0 then st_current_entry s + 1
                          else st_current_entry s)\<rparr>))))"

lemma bej_dict_stream_next_advances:
  "bej_dict_stream_next s = Some (e, s') \<Longrightarrow>
     st_index s + 10 \<le> st_size s \<and> st_index s' = st_index s + 10 \<and> st_size s' = st_size s
     \<and> st_bytes s' = st_bytes s \<and> st_child_count s' = st_child_count s"
  by (auto simp: bej_dict_stream_next_def Let_def split: if_splits option.splits)

text \<open>
  The search loops over a cursor all have the shape
  \<^verbatim>\<open>while (bej_dict_stream_next(&st, &e)) { if (P(e)) return/break; }\<close>:
  the first entry of the walk that satisfies \<open>P\<close>.
\<close>

function bej_dict_stream_find ::
    "(bej_dict_entry \<Rightarrow> bool) \<Rightarrow> bej_dict_stream \<Rightarrow> bej_dict_entry option" where
  "bej_dict_stream_find P s =
     (case bej_dict_stream_next s of
        None \<Rightarrow> None
      | Some (e, s') \<Rightarrow> if P e then Some e else bej_dict_stream_find P s')"
  by pat_completeness auto
termination
proof (relation "measure (\<lambda>(P, s). st_size s - st_index s)")
  fix P s x e s'
  assume "bej_dict_stream_next s = Some x" and "(e, s') = x" and "\<not> P e"
  then have "bej_dict_stream_next s = Some (e, s')" by simp
  from bej_dict_stream_next_advances [OF this]
  have "st_size s' - st_index s' < st_size s - st_index s" by linarith
  then show "((P, s'), (P, s)) \<in> measure (\<lambda>(P, s). st_size s - st_index s)" by simp
qed simp

declare bej_dict_stream_find.simps [simp del]

definition bej_dict_find_child_by_name ::
    "bej_dictionary option \<Rightarrow> u16 \<Rightarrow> u16 \<Rightarrow> byte list \<Rightarrow> bej_dict_entry option" where
  "bej_dict_find_child_by_name dict offset cnt nm =
     (case dict of
        None \<Rightarrow> None
      | Some d \<Rightarrow>
          bej_dict_stream_find (\<lambda>entry. name entry = Some nm)
            (bej_dict_stream_init_subset (Some d) offset cnt))"

text \<open>\<^verbatim>\<open>get_entry_by_seq\<close> of the decoder.\<close>

definition get_entry_by_seq ::
    "bej_dictionary option \<Rightarrow> u16 \<Rightarrow> u16 \<Rightarrow> u64 \<Rightarrow> bej_dict_entry option" where
  "get_entry_by_seq dict child_ptr cnt seq =
     (case dict of
        None \<Rightarrow> None
      | Some d \<Rightarrow>
          bej_dict_stream_find (\<lambda>entry. ucast (sequence entry) = seq)
            (bej_dict_stream_init_subset (Some d) child_ptr cnt))"

subsection \<open>An example schema dictionary\<close>

text \<open>
  The bytes of a \<open>string\<close>, for the names in the examples.
\<close>

definition bytes_of :: "string \<Rightarrow> byte list" where
  "bytes_of s = map of_char s"

text \<open>
  A schema dictionary of 82 bytes: the 12-byte header (entry count 5), five
  entries of 10 bytes, and the name table. The root \<open>R\<close> (a SET, at offset 12)
  has the three children at offset 22: \<open>A\<close> (STRING, sequence 0), \<open>B\<close>
  (STRING, sequence 1) and \<open>State\<close> (ENUM, sequence 2), whose single child at
  offset 52 is \<open>Enabled\<close> (sequence 2).
\<close>

definition example_schema :: bej_dictionary where
  "example_schema = \<lparr>bytes =
     [0x00, 0x00, 0x05, 0x00, 0x52, 0x00, 0x00, 0x00, 0x00, 0x00, 0x00, 0x00,
      0x00, 0x00, 0x00, 0x16, 0x00, 0x03, 0x00, 0x02, 0x3E, 0x00,
      0x50, 0x00, 0x00, 0x00, 0x00, 0x00, 0x00, 0x02, 0x40, 0x00,
      0x50, 0x01, 0x00, 0x00, 0x00, 0x00, 0x00, 0x02, 0x42, 0x00,
      0x40, 0x02, 0x00, 0x34, 0x00, 0x01, 0x00, 0x06, 0x44, 0x00,
      0x50, 0x02, 0x00, 0x00, 0x00, 0x00, 0x00, 0x08, 0x4A, 0x00,
      0x52, 0x00, 0x41, 0x00, 0x42, 0x00,
      0x53, 0x74, 0x61, 0x74, 0x65, 0x00,
      0x45, 0x6E, 0x61, 0x62, 0x6C, 0x65, 0x64, 0x00],
     dict_size = 82\<rparr>"

subsection \<open>Loading\<close>

lemma bej_dictionary_load_Some:
  "bej_dictionary_load (Some content) =
     (if length content < 12 then None
      else Some \<lparr>bytes = content, dict_size = length content\<rparr>)"
  by (auto simp: bej_dictionary_load_def validate_dictionary_header_def Let_def)

text \<open>
  Claim C6, as the code has it. \<^verbatim>\<open>bej_dictionary_load\<close> returns \<^verbatim>\<open>NULL\<close> for
  every file of fewer than 12 bytes and succeeds for every file of at least 12
  bytes, whatever its entry count: it calls \<^verbatim>\<open>validate_dictionary_header\<close>
  only. The bound \<open>12 + entry_count * 10 \<le> size\<close> is checked later, by
  \<^verbatim>\<open>read_dictionary_header\<close> in \<^verbatim>\<open>bej_dict_stream_init\<close>; a loaded dictionary
  that violates it yields no root entry.
\<close>

theorem bej_dictionary_load_size_check:
  "bej_dictionary_load None = None
   \<and> (length content < 12 \<longrightarrow> bej_dictionary_load (Some content) = None)
   \<and> (12 \<le> length content \<longrightarrow>
        bej_dictionary_load (Some content) = Some \<lparr>bytes = content, dict_size = length content\<rparr>)
   \<and> (12 \<le> length content \<and> length content < 12 + unat (read_u16 content 2) * 10 \<longrightarrow>
        read_dictionary_header \<lparr>bytes = content, dict_size = length content\<rparr> = None
        \<and> bej_dict_stream_next
             (bej_dict_stream_init (bej_dictionary_load (Some content))) = None)"
proof (intro conjI impI)
  show "bej_dictionary_load None = None" by (simp add: bej_dictionary_load_def)
next
  assume "length content < 12"
  then show "bej_dictionary_load (Some content) = None" by (simp add: bej_dictionary_load_Some)
next
  assume "12 \<le> length content"
  then show "bej_dictionary_load (Some content) =
      Some \<lparr>bytes = content, dict_size = length content\<rparr>"
    by (simp add: bej_dictionary_load_Some)
next
  assume h: "12 \<le> length content \<and> length content < 12 + unat (read_u16 content 2) * 10"
  then show r: "read_dictionary_header \<lparr>bytes = content, dict_size = length content\<rparr> = None"
    by (simp add: read_dictionary_header_def validate_dictionary_header_def Let_def)
  from h have "bej_dictionary_load (Some content) =
      Some \<lparr>bytes = content, dict_size = length content\<rparr>"
    by (simp add: bej_dictionary_load_Some)
  then show "bej_dict_stream_next
      (bej_dict_stream_init (bej_dictionary_load (Some content))) = None"
    using r by (simp add: bej_dict_stream_init_def bej_dict_stream_next_def
        bej_dict_stream_has_entry_def Let_def)
qed

text \<open>A file of exactly 12 bytes whose header announces one entry.\<close>

definition short_dictionary_file :: "byte list" where
  "short_dictionary_file =
     [0x00, 0x00, 0x01, 0x00, 0x0C, 0x00, 0x00, 0x00, 0x00, 0x00, 0x00, 0x00]"

theorem bej_dictionary_load_size_check_witness:
  "bej_dictionary_load (Some [0x00, 0x00, 0x01]) = None
   \<and> bej_dictionary_load (Some short_dictionary_file) =
        Some \<lparr>bytes = short_dictionary_file, dict_size = 12\<rparr>
   \<and> read_dictionary_header \<lparr>bytes = short_dictionary_file, dict_size = 12\<rparr> = None
   \<and> bej_dict_stream_next
        (bej_dict_stream_init (bej_dictionary_load (Some short_dictionary_file))) = None"
proof -
  have l: "length short_dictionary_file = 12" by (simp add: short_dictionary_file_def)
  have c: "unat (read_u16 short_dictionary_file 2) = 1"
    by (simp add: short_dictionary_file_def read_u16_def)
  show ?thesis
    using bej_dictionary_load_size_check [of "[0x00, 0x00, 0x01]"]
      bej_dictionary_load_size_check [of short_dictionary_file]
    by (auto simp add: l c)
qed

text \<open>
  The claim as stated fails: the 12-byte file above has \<open>12 + 1 * 10 > 12\<close> and
  is loaded all the same.
\<close>

theorem bej_dictionary_load_entry_count_counterexample:
  "length short_dictionary_file < 12 + unat (read_u16 short_dictionary_file 2) * 10
   \<and> bej_dictionary_load (Some short_dictionary_file) \<noteq> None"
proof -
  have l: "length short_dictionary_file = 12" by (simp add: short_dictionary_file_def)
  have c: "unat (read_u16 short_dictionary_file 2) = 1"
    by (simp add: short_dictionary_file_def read_u16_def)
  show ?thesis by (simp add: l c bej_dictionary_load_Some)
qed
section \<open>Enumerations\<close>

text \<open>
  The loop of \<^verbatim>\<open>pack_enum_value\<close> on the 16-bit sequence number:
  \<^verbatim>\<open>while (v_tmp) { tmp[++n] = (uint8_t)(v_tmp & 0xFF); v_tmp >>= 8; }\<close>
\<close>

lemma unat_drop_bit_8_u16: "unat (drop_bit 8 (v :: u16)) = unat v div 256"
proof -
  have "unat (drop_bit 8 v) = drop_bit 8 (unat v)" by (rule unat_drop_bit_eq)
  then show ?thesis by (simp add: drop_bit_eq_div)
qed

function pack_enum_loop :: "u16 \<Rightarrow> byte list" where
  "pack_enum_loop v =
     (if v = 0 then [] else ucast (v AND 0xFF) # pack_enum_loop (drop_bit 8 v))"
  by pat_completeness auto
termination
proof (relation "measure unat")
  fix v :: u16
  assume "v \<noteq> 0"
  then have "0 < unat v" by (simp add: unat_gt_0)
  then have "unat v div 256 < unat v" by simp
  then show "(drop_bit 8 v, v) \<in> measure unat"
    by (simp add: unat_drop_bit_8_u16)
qed simp

declare pack_enum_loop.simps [simp del]

text \<open>
  \<^verbatim>\<open>pack_enum_value\<close>: the payload written, or \<open>None\<close> for the return value 0
  (no child of the entry has the name).
\<close>

definition pack_enum_value ::
    "bej_dictionary option \<Rightarrow> bej_dict_entry \<Rightarrow> byte list \<Rightarrow> byte list option" where
  "pack_enum_value dict entry enum_name =
     (case bej_dict_stream_find (\<lambda>v. name v = Some enum_name)
             (bej_dict_stream_init_subset dict (child_pointer entry) (child_count entry)) of
        None \<Rightarrow> None
      | Some v \<Rightarrow>
          (let val = sequence v;
               tmp = (if val = 0 then [1, 0]
                      else (let bs = pack_enum_loop val in of_nat (length bs) # bs));
               n = length tmp
           in Some (pack_nnint (of_nat n) @ tmp)))"

text \<open>
  \<^verbatim>\<open>unpack_enum_value\<close>. The text written is the child's name in double
  quotes; printing a \<^verbatim>\<open>NULL\<close> name with \<^verbatim>\<open>%s\<close> is undefined.
\<close>

definition unpack_enum_value ::
    "byte list \<Rightarrow> rstream \<Rightarrow> bej_dictionary option \<Rightarrow> bej_dict_entry
       \<Rightarrow> status \<times> rstream \<times> byte list" where
  "unpack_enum_value out inp dict entry =
     (case unpack_nnint inp of
        (None, in1) \<Rightarrow> (Fail, in1, out)
      | (Some len, in1) \<Rightarrow>
          (case unpack_nnint in1 of
             (None, in2) \<Rightarrow> (Fail, in2, out)
           | (Some enum_val, in2) \<Rightarrow>
               (case bej_dict_stream_find (\<lambda>enum_entry. ucast (sequence enum_entry) = enum_val)
                       (bej_dict_stream_init_subset dict (child_pointer entry) (child_count entry)) of
                  None \<Rightarrow> (Fail, in2, out)
                | Some enum_entry \<Rightarrow>
                    (case name enum_entry of
                       None \<Rightarrow> (Undef, in2, out)
                     | Some nm \<Rightarrow> (Ok, in2, out @ [0x22] @ nm @ [0x22])))))"

text \<open>The entry \<open>State\<close> of the example schema.\<close>

definition state_entry :: bej_dict_entry where
  "state_entry = \<lparr>format = 4, flags = 0, sequence = 2, child_pointer = 52, child_count = 1,
     name = Some (bytes_of ''State'')\<rparr>"



subsection \<open>Properties of the enumeration codec\<close>

lemma bej_dict_stream_find_null:
  "bej_dict_stream_find P (bej_dict_stream_init_subset None offset cnt) = None"
  by (subst bej_dict_stream_find.simps)
    (simp add: bej_dict_stream_next_def bej_dict_stream_has_entry_def
      bej_dict_stream_init_subset_def)

lemma bej_dict_find_child_by_name_find:
  "bej_dict_find_child_by_name dict offset cnt nm =
     bej_dict_stream_find (\<lambda>entry. name entry = Some nm)
       (bej_dict_stream_init_subset dict offset cnt)"
  by (cases dict) (simp_all add: bej_dict_find_child_by_name_def bej_dict_stream_find_null)

lemma get_entry_by_seq_find:
  "get_entry_by_seq dict offset cnt seq =
     bej_dict_stream_find (\<lambda>entry. ucast (sequence entry) = seq)
       (bej_dict_stream_init_subset dict offset cnt)"
  by (cases dict) (simp_all add: get_entry_by_seq_def bej_dict_stream_find_null)

lemma unat_ucast_u16: "unat (ucast (v :: u16) :: u64) = unat v"
proof -
  have "unat v < 2 ^ 16" using unsigned_less [where 'a = nat, of v] by simp
  then have "unat v < 2 ^ 64" by simp
  then show ?thesis by (simp add: unsigned_ucast_eq take_bit_nat_eq_self)
qed

lemma ucast_u16_eq_0: "(ucast (v :: u16) :: u64) = 0 \<longleftrightarrow> v = 0"
  using unat_ucast_u16 [of v] by (metis unat_eq_zero)

lemma pack_enum_loop_eq: "pack_enum_loop v = pack_nnint_loop (ucast v)"
proof (induction v rule: pack_enum_loop.induct)
  case (1 v)
  show ?case
  proof (cases "v = 0")
    case True
    then show ?thesis by (simp add: pack_enum_loop.simps pack_nnint_loop.simps)
  next
    case False
    then have nz: "(ucast v :: u64) \<noteq> 0" by (simp add: ucast_u16_eq_0)
    have b: "(ucast (v AND 0xFF) :: byte) = ucast ((ucast v :: u64) AND 0xFF)"
      by (rule bit_eqI) (auto simp: bit_simps bit_255_int)
    have d: "(ucast (drop_bit 8 v) :: u64) = drop_bit 8 (ucast v)"
      by (rule bit_eqI) (auto simp: bit_simps dest: bit_imp_le_length)
    have "pack_enum_loop v = ucast (v AND 0xFF) # pack_enum_loop (drop_bit 8 v)"
      using False by (subst pack_enum_loop.simps) simp
    also have "\<dots> = ucast ((ucast v :: u64) AND 0xFF) # pack_nnint_loop (drop_bit 8 (ucast v))"
      using "1.IH" [OF False] by (simp only: b d)
    also have "\<dots> = pack_nnint_loop (ucast v)"
      using nz by (subst (2) pack_nnint_loop.simps) simp
    finally show ?thesis .
  qed
qed

lemma pack_enum_tmp_eq:
  "(if val = 0 then [1, 0]
    else (let bs = pack_enum_loop val in of_nat (length bs) # bs)) = pack_nnint (ucast val)"
  by (simp add: pack_nnint_def pack_enum_loop_eq ucast_u16_eq_0 Let_def)

lemma pack_nnint_u16_length:
  "length (pack_nnint (ucast (s :: u16) :: u64)) = (if s < 256 then 2 else 3)"
proof (cases "s = 0")
  case True
  then show ?thesis by (simp add: pack_nnint_def)
next
  case False
  let ?v = "ucast s :: u64"
  let ?n = "length (pack_nnint_loop ?v)"
  have nz: "?v \<noteq> 0" using False by (simp add: ucast_u16_eq_0)
  have us: "unat ?v = unat s" by (rule unat_ucast_u16)
  have lt: "unat s < 256 ^ 2" using unsigned_less [where 'a = nat, of s] by simp
  from pack_loop_length_bounds [of ?v] nz
  have b1: "unat s < 256 ^ ?n" and b2: "256 ^ (?n - 1) \<le> unat s" by (simp_all add: us)
  have len: "length (pack_nnint ?v) = Suc ?n" using nz by (simp add: pack_nnint_def Let_def)
  have pos: "0 < ?n" using nz by (rule pack_loop_length_pos)
  from b2 lt have "(256::nat) ^ (?n - 1) < 256 ^ 2" by (rule le_less_trans)
  then have n2: "?n - 1 < 2" by (simp only: power_strict_increasing_iff)
  show ?thesis
  proof (cases "s < 256")
    case True
    then have "unat s < 256" by (simp add: word_less_nat_alt)
    with b2 have "(256::nat) ^ (?n - 1) < 256 ^ 1" by simp
    then have "?n - 1 < 1" by (simp only: power_strict_increasing_iff)
    with pos have "?n = 1" by linarith
    with True len show ?thesis by simp
  next
    case ge: False
    then have "256 ^ 1 \<le> unat s" by (simp add: word_less_nat_alt)
    then have "(256::nat) ^ 1 < 256 ^ ?n" using b1 by (rule le_less_trans)
    then have "1 < ?n" by (simp only: power_strict_increasing_iff)
    with n2 have "?n = 2" by linarith
    with ge len show ?thesis by simp
  qed
qed

text \<open>
  Claim C4, as the code has it. For an ENUM entry and a JSON string naming a
  child with sequence \<open>s\<close>, the payload is NNINT(\<open>w + 1\<close>) followed by the NNINT
  encoding of \<open>s\<close> (a length byte \<open>w\<close>, then the \<open>w\<close> minimal little-endian
  bytes of \<open>s\<close>): the leading NNINT is the byte length of the encoded value,
  its length byte included, so 2 for \<open>s < 256\<close> and 3 otherwise. A string naming
  no child of the entry is an error.
\<close>

theorem pack_enum_value_payload:
  fixes dict entry enum_name
  defines "found \<equiv>
    bej_dict_find_child_by_name dict (child_pointer entry) (child_count entry) enum_name"
  shows "(found = None \<longrightarrow> pack_enum_value dict entry enum_name = None)
     \<and> (\<forall>child. found = Some child \<longrightarrow>
          pack_enum_value dict entry enum_name =
            Some (pack_nnint (of_nat (length (pack_nnint (ucast (sequence child)))))
                  @ pack_nnint (ucast (sequence child)))
          \<and> length (pack_nnint (ucast (sequence child))) =
              (if sequence child < 256 then 2 else 3))"
  unfolding found_def bej_dict_find_child_by_name_find
  by (auto simp: pack_enum_value_def pack_enum_tmp_eq pack_nnint_u16_length Let_def
      simp del: of_nat_numeral)

theorem pack_enum_value_payload_witness:
  "bej_dict_find_child_by_name (Some example_schema) 52 1 (bytes_of ''Enabled'') =
     Some \<lparr>format = 5, flags = 0, sequence = 2, child_pointer = 0, child_count = 0,
            name = Some (bytes_of ''Enabled'')\<rparr>
   \<and> pack_enum_value (Some example_schema) state_entry (bytes_of ''Enabled'') =
       Some [1, 2, 1, 2]
   \<and> bej_dict_find_child_by_name (Some example_schema) 52 1 (bytes_of ''Disabled'') = None
   \<and> pack_enum_value (Some example_schema) state_entry (bytes_of ''Disabled'') = None"
proof -
  have f: "bej_dict_find_child_by_name (Some example_schema)
        (child_pointer state_entry) (child_count state_entry) (bytes_of ''Enabled'') =
     Some \<lparr>format = 5, flags = 0, sequence = 2, child_pointer = 0, child_count = 0,
            name = Some (bytes_of ''Enabled'')\<rparr>"
    by code_simp
  have g: "bej_dict_find_child_by_name (Some example_schema)
        (child_pointer state_entry) (child_count state_entry) (bytes_of ''Disabled'') = None"
    by code_simp
  have c: "child_pointer state_entry = 52" "child_count state_entry = 1"
    by (simp_all add: state_entry_def)
  have p: "pack_nnint 2 = [1, 2]" by code_simp
  from pack_enum_value_payload [of "Some example_schema" state_entry "bytes_of ''Enabled''"]
    pack_enum_value_payload [of "Some example_schema" state_entry "bytes_of ''Disabled''"]
  show ?thesis
    unfolding f g using f g by (simp add: c p)
qed

text \<open>
  The claim as stated fails: for the child \<open>Enabled\<close> with sequence 2 the payload
  is \<open>01 02 01 02\<close>, not NNINT(1) followed by NNINT(1, 0x02), which is
  \<open>01 01 01 02\<close>.
\<close>

theorem pack_enum_value_sequence_2_counterexample:
  "pack_enum_value (Some example_schema) state_entry (bytes_of ''Enabled'')
      = Some [0x01, 0x02, 0x01, 0x02]
   \<and> pack_enum_value (Some example_schema) state_entry (bytes_of ''Enabled'')
      \<noteq> Some (pack_nnint 1 @ [0x01, 0x02])"
proof -
  have e: "pack_enum_value (Some example_schema) state_entry (bytes_of ''Enabled'')
      = Some [0x01, 0x02, 0x01, 0x02]" by code_simp
  have p: "pack_nnint 1 = [1, 1]" by code_simp
  show ?thesis unfolding e p by simp
qed

text \<open>
  Claim C10. \<^verbatim>\<open>unpack_enum_value\<close> reads the leading NNINT length and never
  looks at it: whenever the length field and the value NNINT parse and the
  value is the sequence of a (named) child of the entry, the call succeeds and
  writes that child's name, whatever the value \<open>len\<close> of the length field.
\<close>

theorem unpack_enum_value_ignores_length:
  assumes "unpack_nnint inp = (Some len, in1)"
    and "unpack_nnint in1 = (Some enum_val, in2)"
    and "get_entry_by_seq dict (child_pointer entry) (child_count entry) enum_val = Some child"
    and "name child = Some nm"
  shows "unpack_enum_value out inp dict entry = (Ok, in2, out @ [0x22] @ nm @ [0x22])"
  using assms unfolding get_entry_by_seq_find
  by (simp add: unpack_enum_value_def)

theorem unpack_enum_value_ignores_length_witness:
  "unpack_nnint \<lparr>buf = [1, 7, 1, 2], pos = 0\<rparr> = (Some 7, \<lparr>buf = [1, 7, 1, 2], pos = 2\<rparr>)
   \<and> unpack_nnint \<lparr>buf = [1, 7, 1, 2], pos = 2\<rparr> = (Some 2, \<lparr>buf = [1, 7, 1, 2], pos = 4\<rparr>)
   \<and> unpack_enum_value [] \<lparr>buf = [1, 7, 1, 2], pos = 0\<rparr> (Some example_schema) state_entry
       = (Ok, \<lparr>buf = [1, 7, 1, 2], pos = 4\<rparr>, [0x22] @ bytes_of ''Enabled'' @ [0x22])"
proof -
  have a: "unpack_nnint \<lparr>buf = [1, 7, 1, 2], pos = 0\<rparr> =
      (Some 7, \<lparr>buf = [1, 7, 1, 2], pos = 2\<rparr>)" by code_simp
  have b: "unpack_nnint \<lparr>buf = [1, 7, 1, 2], pos = 2\<rparr> =
      (Some 2, \<lparr>buf = [1, 7, 1, 2], pos = 4\<rparr>)" by code_simp
  have c: "get_entry_by_seq (Some example_schema) (child_pointer state_entry)
      (child_count state_entry) 2 =
     Some \<lparr>format = 5, flags = 0, sequence = 2, child_pointer = 0, child_count = 0,
            name = Some (bytes_of ''Enabled'')\<rparr>" by code_simp
  from unpack_enum_value_ignores_length [OF a b c, of "bytes_of ''Enabled''" "[]"]
  show ?thesis using a b by simp
qed
section \<open>JSON values\<close>

text \<open>
  \<^verbatim>\<open>json_value_t\<close>: a tagged tree. A number is a \<^verbatim>\<open>double\<close>, modelled by the
  real it denotes; a string is a C string, modelled by its bytes before the
  terminating NUL; an object is the array of its (key, value) entries in order.
\<close>

datatype json_value =
    JSON_NULL
  | JSON_BOOL bool
  | JSON_NUMBER real
  | JSON_STRING "byte list"
  | JSON_ARRAY "json_value list"
  | JSON_OBJECT "(byte list \<times> json_value) list"

text \<open>
  The cast \<^verbatim>\<open>(int64_t)json_value->data.number\<close> truncates towards zero (it is
  undefined in C when the result does not fit; the model wraps).
\<close>

definition double_to_int64 :: "real \<Rightarrow> u64" where
  "double_to_int64 x = word_of_int (if x < 0 then \<lceil>x\<rceil> else \<lfloor>x\<rfloor>)"

section \<open>The encoder\<close>

definition pack_sfl :: "u64 \<Rightarrow> byte \<Rightarrow> u64 \<Rightarrow> byte list" where
  "pack_sfl seq_with_selector fmt len =
     pack_nnint seq_with_selector @ [push_bit 4 fmt] @ pack_nnint len"

definition pack_string_value :: "byte list \<Rightarrow> byte list" where
  "pack_string_value str = pack_nnint (of_nat (length str + 1)) @ str @ [0]"

definition pack_boolean_value :: "bool \<Rightarrow> byte list" where
  "pack_boolean_value b = pack_nnint 1 @ [if b then 1 else 0]"

text \<open>\<^verbatim>\<open>s[0] == '@'\<close> on a C string.\<close>

definition starts_with_at :: "byte list \<Rightarrow> bool" where
  "starts_with_at s = (case s of [] \<Rightarrow> False | c # _ \<Rightarrow> c = 0x40)"

text \<open>
  The lookup both loops of \<^verbatim>\<open>encode_properties\<close> make for a key: the
  selector, the dictionary searched, the offset and the count handed to
  \<^verbatim>\<open>bej_dict_find_child_by_name\<close>. The count for an annotation key is
  \<^verbatim>\<open>annot_dict->size\<close> converted to \<^verbatim>\<open>uint16_t\<close>.
\<close>

definition key_selector :: "byte list \<Rightarrow> byte" where
  "key_selector key = (if starts_with_at key then 1 else 0)"

definition lookup_property ::
    "bej_dict_entry \<Rightarrow> bej_dictionary option \<Rightarrow> bej_dictionary option \<Rightarrow> byte list
       \<Rightarrow> bej_dict_entry option" where
  "lookup_property parent_entry schema_dict annot_dict key =
     (let selector = key_selector key;
          dict_to_search = (if selector \<noteq> 0 then annot_dict else schema_dict);
          child_ptr = (if selector \<noteq> 0 then 0 else child_pointer parent_entry);
          child_cnt = (if selector \<noteq> 0
                       then (case annot_dict of Some a \<Rightarrow> of_nat (dict_size a) | None \<Rightarrow> 0)
                       else child_count parent_entry)
      in bej_dict_find_child_by_name dict_to_search child_ptr child_cnt key)"

text \<open>
  The encoder functions return a status and the bytes they have written to
  their output stream. \<open>and_then r1 r2\<close> is the sequence
  \<^verbatim>\<open>if (!f(out, ...)) return 0; ... g(out, ...)\<close>: the second call writes after
  the first, and only when the first succeeded.
\<close>

definition and_then :: "status \<times> byte list \<Rightarrow> status \<times> byte list \<Rightarrow> status \<times> byte list" where
  "and_then r1 r2 = (if fst r1 = Ok then (fst r2, snd r1 @ snd r2) else r1)"

text \<open>
  The cases of the \<^verbatim>\<open>switch\<close> of \<^verbatim>\<open>encode_value\<close> that do not recurse:
  INTEGER, STRING, BOOLEAN, ENUM, NULL and the default.
\<close>

definition encode_scalar_payload ::
    "bej_dict_entry \<Rightarrow> byte \<Rightarrow> json_value \<Rightarrow> bej_dictionary option \<Rightarrow> bej_dictionary option
       \<Rightarrow> status \<times> byte list" where
  "encode_scalar_payload entry selector json_value schema_dict annot_dict =
     (if format entry = 0x03 then
        (case json_value of
           JSON_NUMBER x \<Rightarrow> (Ok, pack_integer_value (double_to_int64 x))
         | _ \<Rightarrow> (Fail, []))
      else if format entry = 0x05 then
        (case json_value of
           JSON_STRING str \<Rightarrow> (Ok, pack_string_value str)
         | _ \<Rightarrow> (Fail, []))
      else if format entry = 0x07 then
        (case json_value of
           JSON_BOOL b \<Rightarrow> (Ok, pack_boolean_value b)
         | _ \<Rightarrow> (Fail, []))
      else if format entry = 0x04 then
        (let dict_to_use = (if selector \<noteq> 0 then annot_dict else schema_dict) in
         case json_value of
           JSON_STRING str \<Rightarrow>
             (case pack_enum_value dict_to_use entry str of
                Some payload \<Rightarrow> (Ok, payload)
              | None \<Rightarrow> (Fail, []))
         | _ \<Rightarrow> (Fail, []))
      else if format entry = 0x02 then (Ok, [])
      else (Fail, []))"

text \<open>
  The end of \<^verbatim>\<open>encode_value\<close>: nothing is written when the payload failed;
  otherwise the SFL header, with
  \<^verbatim>\<open>seq_with_selector = ((uint64_t)entry->sequence << 1) | selector\<close> and the
  size of the buffered payload, and then the payload.
\<close>

definition write_sfl_and_payload ::
    "bej_dict_entry \<Rightarrow> byte \<Rightarrow> status \<times> byte list \<Rightarrow> status \<times> byte list" where
  "write_sfl_and_payload entry selector r =
     (if fst r \<noteq> Ok then (fst r, [])
      else (let tmp_payload = snd r;
                seq_with_selector = push_bit 1 (ucast (sequence entry)) OR ucast selector
            in (Ok, pack_sfl seq_with_selector (format entry) (of_nat (length tmp_payload))
                      @ tmp_payload)))"

text \<open>
  The first loop of \<^verbatim>\<open>encode_properties\<close>: the number of keys that resolve.
\<close>

definition count_resolved ::
    "(byte list \<times> json_value) list \<Rightarrow> bej_dict_entry \<Rightarrow> bej_dictionary option
       \<Rightarrow> bej_dictionary option \<Rightarrow> nat" where
  "count_resolved entries parent_entry schema_dict annot_dict =
     length (filter (\<lambda>(key, val).
        lookup_property parent_entry schema_dict annot_dict key \<noteq> None) entries)"

text \<open>
  The recursive part of the encoder. \<^verbatim>\<open>encode_array_payload\<close> reads
  \<^verbatim>\<open>array_entry->name[0]\<close> and \<^verbatim>\<open>json_array->data.array\<close> without a check of
  the name or of the type of the value: a \<^verbatim>\<open>NULL\<close> name and a value that is not
  an array (the array member of the union read where another member was stored)
  are the outcome \<open>Undef\<close>. The element's sequence number is the index,
  truncated to 16 bits.
\<close>

function (sequential) encode_value ::
      "bej_dict_entry \<Rightarrow> byte \<Rightarrow> json_value \<Rightarrow> bej_dictionary option \<Rightarrow> bej_dictionary option
         \<Rightarrow> status \<times> byte list"
  and encode_properties ::
      "json_value \<Rightarrow> bej_dict_entry \<Rightarrow> bej_dictionary option \<Rightarrow> bej_dictionary option
         \<Rightarrow> status \<times> byte list"
  and encode_properties_loop ::
      "(byte list \<times> json_value) list \<Rightarrow> bej_dict_entry \<Rightarrow> bej_dictionary option
         \<Rightarrow> bej_dictionary option \<Rightarrow> status \<times> byte list"
  and encode_array_payload ::
      "bej_dict_entry \<Rightarrow> json_value \<Rightarrow> bej_dictionary option \<Rightarrow> bej_dictionary option
         \<Rightarrow> status \<times> byte list"
  and encode_array_loop ::
      "nat \<Rightarrow> json_value list \<Rightarrow> bej_dict_entry \<Rightarrow> byte \<Rightarrow> bej_dictionary option
         \<Rightarrow> bej_dictionary option \<Rightarrow> status \<times> byte list"
where
  "encode_value entry selector json_value schema_dict annot_dict =
     write_sfl_and_payload entry selector
       (if format entry = 0x00 then
          encode_properties json_value entry schema_dict annot_dict
        else if format entry = 0x01 then
          encode_array_payload entry json_value schema_dict annot_dict
        else encode_scalar_payload entry selector json_value schema_dict annot_dict)"
| "encode_properties (JSON_OBJECT entries) parent_entry schema_dict annot_dict =
     and_then
       (Ok, pack_nnint (of_nat (count_resolved entries parent_entry schema_dict annot_dict)))
       (encode_properties_loop entries parent_entry schema_dict annot_dict)"
| "encode_properties _ parent_entry schema_dict annot_dict = (Fail, [])"
| "encode_properties_loop [] parent_entry schema_dict annot_dict = (Ok, [])"
| "encode_properties_loop ((key, val) # rest) parent_entry schema_dict annot_dict =
     (case lookup_property parent_entry schema_dict annot_dict key of
        Some child \<Rightarrow>
          and_then (encode_value child (key_selector key) val schema_dict annot_dict)
            (encode_properties_loop rest parent_entry schema_dict annot_dict)
      | None \<Rightarrow> encode_properties_loop rest parent_entry schema_dict annot_dict)"
| "encode_array_payload array_entry (JSON_ARRAY items) schema_dict annot_dict =
     (case name array_entry of
        None \<Rightarrow> (Undef, [])
      | Some nm \<Rightarrow>
          (let dict_to_use = (if starts_with_at nm then annot_dict else schema_dict) in
           case bej_dict_stream_next
                  (bej_dict_stream_init_subset dict_to_use
                     (child_pointer array_entry) (child_count array_entry)) of
             None \<Rightarrow> (Fail, [])
           | Some (element_entry, _) \<Rightarrow>
               and_then (Ok, pack_nnint (of_nat (length items)))
                 (encode_array_loop 0 items element_entry
                    (if starts_with_at nm then 1 else 0) schema_dict annot_dict)))"
| "encode_array_payload array_entry _ schema_dict annot_dict =
     (case name array_entry of
        None \<Rightarrow> (Undef, [])
      | Some nm \<Rightarrow>
          (let dict_to_use = (if starts_with_at nm then annot_dict else schema_dict) in
           case bej_dict_stream_next
                  (bej_dict_stream_init_subset dict_to_use
                     (child_pointer array_entry) (child_count array_entry)) of
             None \<Rightarrow> (Fail, [])
           | Some (element_entry, _) \<Rightarrow> (Undef, [])))"
| "encode_array_loop i [] element_entry selector schema_dict annot_dict = (Ok, [])"
| "encode_array_loop i (item # rest) element_entry selector schema_dict annot_dict =
     and_then
       (encode_value (element_entry\<lparr>sequence := of_nat i\<rparr>) selector item
          schema_dict annot_dict)
       (encode_array_loop (i + 1) rest element_entry selector schema_dict annot_dict)"

  by pat_completeness auto
termination
  by (relation "measure (\<lambda>x. case x of
        Inl (Inl (entry, selector, jv, rest)) \<Rightarrow> 2 * size jv + 2
      | Inl (Inr (jv, rest)) \<Rightarrow> 2 * size jv + 1
      | Inr (Inl (entries, rest)) \<Rightarrow> 2 * size_list (size_prod (\<lambda>k. 0) size) entries
      | Inr (Inr (Inl (entry, jv, rest))) \<Rightarrow> 2 * size jv + 1
      | Inr (Inr (Inr (i, items, rest))) \<Rightarrow> 2 * size_list size items + 1)")
    auto

definition bej_encode_stream ::
    "json_value \<Rightarrow> bej_dictionary option \<Rightarrow> bej_dictionary option \<Rightarrow> status \<times> byte list" where
  "bej_encode_stream json_data schema_dict annot_dict =
     (case schema_dict of
        None \<Rightarrow> (Fail, [])
      | Some sd \<Rightarrow>
          (let header = [0x00, 0xF0, 0xF1, 0xF1, 0x00, 0x00, 0x00] in
           case bej_dict_stream_next (bej_dict_stream_init schema_dict) of
             None \<Rightarrow> (Fail, header)
           | Some (root_entry, _) \<Rightarrow>
               (case encode_properties json_data root_entry schema_dict annot_dict of
                  (Ok, tmp_payload) \<Rightarrow>
                    (Ok, header @ pack_sfl 0 0x00 (of_nat (length tmp_payload)) @ tmp_payload)
                | (st, _) \<Rightarrow> (st, header))))"

subsection \<open>Unresolved properties are skipped\<close>

lemma and_then_Ok_iff:
  "and_then r1 r2 = (Ok, bs) \<longleftrightarrow>
     (\<exists>b1 b2. r1 = (Ok, b1) \<and> r2 = (Ok, b2) \<and> bs = b1 @ b2)"
  by (cases r1; cases r2) (auto simp: and_then_def)

lemma encode_properties_loop_filter:
  "encode_properties_loop
      (filter (\<lambda>(key, val). lookup_property parent schema annot key \<noteq> None) entries)
      parent schema annot
   = encode_properties_loop entries parent schema annot"
proof (induction entries)
  case Nil
  then show ?case by simp
next
  case (Cons kv entries)
  obtain key val where kv: "kv = (key, val)" by (cases kv)
  show ?case
  proof (cases "lookup_property parent schema annot key")
    case None
    with Cons.IH kv show ?thesis by simp
  next
    case (Some child)
    with Cons.IH kv show ?thesis by simp
  qed
qed

lemma count_resolved_filter:
  "count_resolved
      (filter (\<lambda>(key, val). lookup_property parent schema annot key \<noteq> None) entries)
      parent schema annot
   = count_resolved entries parent schema annot"
  by (simp add: count_resolved_def)

text \<open>
  Claim C8. Encoding a JSON object skips every property whose key resolves to
  no dictionary entry: the result of \<^verbatim>\<open>encode_properties\<close> (status and bytes)
  is the result for the same object with the unresolved properties removed, and
  the bytes start with the NNINT of the number of resolved properties.
\<close>

theorem encode_properties_skips_unresolved:
  fixes parent schema annot
  defines "resolved \<equiv> (\<lambda>(key, val). lookup_property parent schema annot key \<noteq> None)"
  shows "encode_properties (JSON_OBJECT entries) parent schema annot =
           encode_properties (JSON_OBJECT (filter resolved entries)) parent schema annot
       \<and> (\<exists>rest. snd (encode_properties (JSON_OBJECT entries) parent schema annot) =
             pack_nnint (of_nat (length (filter resolved entries))) @ rest)"
proof
  show "encode_properties (JSON_OBJECT entries) parent schema annot =
           encode_properties (JSON_OBJECT (filter resolved entries)) parent schema annot"
    unfolding resolved_def
    by (simp only: encode_properties.simps encode_properties_loop_filter count_resolved_filter)
  show "\<exists>rest. snd (encode_properties (JSON_OBJECT entries) parent schema annot) =
             pack_nnint (of_nat (length (filter resolved entries))) @ rest"
    unfolding resolved_def
    by (simp add: and_then_def count_resolved_def)
qed


text \<open>The root entry of the example schema.\<close>

definition example_root :: bej_dict_entry where
  "example_root = \<lparr>format = 0, flags = 0, sequence = 0, child_pointer = 22, child_count = 3,
     name = Some (bytes_of ''R'')\<rparr>"

theorem encode_properties_skips_unresolved_witness:
  "encode_properties
      (JSON_OBJECT [(bytes_of ''A'', JSON_STRING (bytes_of ''x'')), (bytes_of ''Bogus'', JSON_NULL)])
      example_root (Some example_schema) None
   = encode_properties (JSON_OBJECT [(bytes_of ''A'', JSON_STRING (bytes_of ''x''))])
      example_root (Some example_schema) None
   \<and> encode_properties
      (JSON_OBJECT [(bytes_of ''A'', JSON_STRING (bytes_of ''x'')), (bytes_of ''Bogus'', JSON_NULL)])
      example_root (Some example_schema) None
   = (Ok, pack_nnint 1 @ [0x01, 0x00, 0x50, 0x01, 0x04, 0x01, 0x02, 0x78, 0x00])"
proof -
  have a: "lookup_property example_root (Some example_schema) None (bytes_of ''A'') \<noteq> None"
    by code_simp
  have b: "lookup_property example_root (Some example_schema) None (bytes_of ''Bogus'') = None"
    by code_simp
  have c: "encode_properties (JSON_OBJECT [(bytes_of ''A'', JSON_STRING (bytes_of ''x''))])
      example_root (Some example_schema) None
    = (Ok, pack_nnint 1 @ [0x01, 0x00, 0x50, 0x01, 0x04, 0x01, 0x02, 0x78, 0x00])"
    by code_simp
  from encode_properties_skips_unresolved [where parent = example_root
      and schema = "Some example_schema" and annot = None
      and entries = "[(bytes_of ''A'', JSON_STRING (bytes_of ''x'')), (bytes_of ''Bogus'', JSON_NULL)]"]
  show ?thesis using a b c by simp
qed

subsection \<open>Selector routing\<close>

lemma lookup_property_routing:
  "lookup_property parent schema annot key =
     (if starts_with_at key
      then bej_dict_find_child_by_name annot 0
             (case annot of Some a \<Rightarrow> of_nat (dict_size a) | None \<Rightarrow> 0) key
      else bej_dict_find_child_by_name schema (child_pointer parent) (child_count parent) key)"
  by (simp add: lookup_property_def key_selector_def Let_def)

lemma encode_value_Ok:
  assumes "encode_value child selector val schema annot = (Ok, bs)"
  shows "\<exists>payload. bs =
           pack_nnint (push_bit 1 (ucast (sequence child)) OR ucast selector)
           @ [push_bit 4 (format child)] @ pack_nnint (of_nat (length payload)) @ payload"
  using assms
  by (auto simp: write_sfl_and_payload_def pack_sfl_def Let_def split: if_splits)

text \<open>
  The shape of one emitted property: found by name in the dictionary its key
  selects, and written as an SFL whose sequence NNINT is
  \<open>(sequence << 1) | selector\<close>, followed by its payload.
\<close>

definition emitted_property ::
    "bej_dict_entry \<Rightarrow> bej_dictionary option \<Rightarrow> bej_dictionary option
       \<Rightarrow> byte list \<times> json_value \<Rightarrow> byte list \<Rightarrow> bool" where
  "emitted_property parent schema annot kv chunk \<longleftrightarrow>
     (\<exists>child payload.
        (if starts_with_at (fst kv)
         then bej_dict_find_child_by_name annot 0
                (case annot of Some a \<Rightarrow> of_nat (dict_size a) | None \<Rightarrow> 0) (fst kv)
         else bej_dict_find_child_by_name schema
                (child_pointer parent) (child_count parent) (fst kv)) = Some child
      \<and> chunk =
          pack_nnint (push_bit 1 (ucast (sequence child))
                        OR (if starts_with_at (fst kv) then 1 else 0))
          @ [push_bit 4 (format child)] @ pack_nnint (of_nat (length payload)) @ payload)"

lemma encode_properties_loop_chunks:
  "encode_properties_loop entries parent schema annot = (Ok, bs) \<Longrightarrow>
     \<exists>chunks. bs = concat chunks \<and>
       list_all2 (emitted_property parent schema annot)
         (filter (\<lambda>(key, val). lookup_property parent schema annot key \<noteq> None) entries)
         chunks"
proof (induction entries arbitrary: bs)
  case Nil
  then show ?case by simp
next
  case (Cons kv entries)
  obtain key val where kv: "kv = (key, val)" by (cases kv)
  show ?case
  proof (cases "lookup_property parent schema annot key")
    case None
    with Cons kv show ?thesis by simp
  next
    case (Some child)
    with Cons.prems kv obtain b1 b2 where
      b1: "encode_value child (key_selector key) val schema annot = (Ok, b1)"
      and b2: "encode_properties_loop entries parent schema annot = (Ok, b2)"
      and bs: "bs = b1 @ b2"
      by (auto simp: and_then_Ok_iff)
    from Cons.IH [OF b2] obtain chunks where
      ch: "b2 = concat chunks"
      "list_all2 (emitted_property parent schema annot)
         (filter (\<lambda>(key, val). lookup_property parent schema annot key \<noteq> None) entries)
         chunks"
      by blast
    from encode_value_Ok [OF b1] obtain payload where
      p: "b1 = pack_nnint (push_bit 1 (ucast (sequence child)) OR ucast (key_selector key))
           @ [push_bit 4 (format child)] @ pack_nnint (of_nat (length payload)) @ payload"
      by blast
    have sel: "(ucast (key_selector key) :: u64) = (if starts_with_at key then 1 else 0)"
      by (simp add: key_selector_def)
    have "emitted_property parent schema annot (key, val) b1"
      unfolding emitted_property_def
      using Some p sel by (auto simp: lookup_property_routing split: if_splits)
    with ch bs Some kv show ?thesis
      by (intro exI [of _ "b1 # chunks"]) simp
  qed
qed

text \<open>
  Claim C9. When \<^verbatim>\<open>encode_properties\<close> succeeds on an object, the bytes are the
  NNINT count followed by one chunk for each resolved property, in order. The
  chunk of a property whose key starts with \<open>@\<close> was looked up by name in the
  annotation dictionary and carries the on-wire sequence
  \<open>(entry.sequence << 1) | 1\<close>; the chunk of any other property was looked up in
  the schema dictionary (the parent's child subset) and carries
  \<open>(entry.sequence << 1) | 0\<close>.
\<close>

theorem encode_properties_selector_routing:
  assumes "encode_properties (JSON_OBJECT entries) parent schema annot = (Ok, bs)"
  shows "\<exists>chunks.
      bs = pack_nnint (of_nat (length chunks)) @ concat chunks
      \<and> list_all2 (emitted_property parent schema annot)
            (filter (\<lambda>(key, val). lookup_property parent schema annot key \<noteq> None) entries)
            chunks"
proof -
  from assms obtain b2 where
    b2: "encode_properties_loop entries parent schema annot = (Ok, b2)"
    and bs: "bs = pack_nnint (of_nat (count_resolved entries parent schema annot)) @ b2"
    by (auto simp: and_then_Ok_iff)
  from encode_properties_loop_chunks [OF b2] obtain chunks where
    ch: "b2 = concat chunks"
    "list_all2 (emitted_property parent schema annot)
       (filter (\<lambda>(key, val). lookup_property parent schema annot key \<noteq> None) entries)
       chunks"
    by blast
  from ch(2) have "count_resolved entries parent schema annot = length chunks"
    by (simp add: count_resolved_def list_all2_lengthD)
  with bs ch(1) have "bs = pack_nnint (of_nat (length chunks)) @ concat chunks" by simp
  with ch(2) show ?thesis by blast
qed
section \<open>The decoder\<close>

text \<open>
  The decoder writes JSON text to its output stream. Its functions return the
  status, the input stream and the output written so far: several callers
  ignore a failure of their callee and go on reading and writing.
\<close>

type_synonym dres = "status \<times> rstream \<times> byte list"

text \<open>
  \<^verbatim>\<open>fseek(in, length, SEEK_CUR)\<close> on a memory stream, the \<^verbatim>\<open>uint64_t\<close> length
  converted to \<^verbatim>\<open>long\<close>: the position moves when the target lies inside the
  buffer and stays otherwise. \<^verbatim>\<open>fseek(in, 7, SEEK_SET)\<close> likewise.
\<close>

definition fseek_cur :: "u64 \<Rightarrow> rstream \<Rightarrow> rstream" where
  "fseek_cur len s =
     (let np = int (pos s) + sint len
      in if 0 \<le> np \<and> np \<le> int (length (buf s)) then s\<lparr>pos := nat np\<rparr> else s)"

definition fseek_set :: "nat \<Rightarrow> rstream \<Rightarrow> rstream" where
  "fseek_set n s = (if n \<le> length (buf s) then s\<lparr>pos := n\<rparr> else s)"

definition unpack_sfl :: "rstream \<Rightarrow> (u64 \<times> byte \<times> u64) option \<times> rstream" where
  "unpack_sfl s =
     (case unpack_nnint s of
        (None, s1) \<Rightarrow> (None, s1)
      | (Some seq, s1) \<Rightarrow>
          (case fread 1 s1 of
             ([format_and_flags], s2) \<Rightarrow>
               (case unpack_nnint s2 of
                  (None, s3) \<Rightarrow> (None, s3)
                | (Some len, s3) \<Rightarrow> (Some (seq, drop_bit 4 format_and_flags, len), s3))
           | (_, s2) \<Rightarrow> (None, s2)))"

definition decode_sequence_number :: "u64 \<Rightarrow> u64 \<times> byte" where
  "decode_sequence_number seq = (drop_bit 1 seq, ucast (seq AND 0x01))"

text \<open>\<^verbatim>\<open>decode_name\<close>: the key, in double quotes (byte \<open>0x22\<close>), and a colon.\<close>

definition decode_name :: "bej_dict_entry \<Rightarrow> byte list \<Rightarrow> byte list" where
  "decode_name entry out =
     (case name entry of
        Some nm \<Rightarrow> out @ [0x22] @ nm @ [0x22] @ bytes_of '':''
      | None \<Rightarrow> out)"

text \<open>
  \<^verbatim>\<open>unpack_string_value\<close>: the last byte read is overwritten with NUL and the
  buffer is printed with \<^verbatim>\<open>%s\<close>, which stops at the first NUL; no character
  is escaped. Allocation is taken to succeed.
\<close>

definition unpack_string_value :: "byte list \<Rightarrow> rstream \<Rightarrow> dres" where
  "unpack_string_value out inp =
     (case unpack_nnint inp of
        (None, in1) \<Rightarrow> (Fail, in1, out)
      | (Some str_len, in1) \<Rightarrow>
          if str_len = 0 then (Ok, in1, out @ [0x22, 0x22])
          else (case fread (unat str_len) in1 of (bs, in2) \<Rightarrow>
            if length bs \<noteq> unat str_len then (Fail, in2, out)
            else (Ok, in2,
                   out @ [0x22] @ takeWhile (\<lambda>b. b \<noteq> 0) (butlast bs) @ [0x22])))"

definition unpack_boolean_value :: "byte list \<Rightarrow> rstream \<Rightarrow> dres" where
  "unpack_boolean_value out inp =
     (case unpack_nnint inp of
        (None, in1) \<Rightarrow> (Fail, in1, out)
      | (Some bool_len, in1) \<Rightarrow>
          if bool_len \<noteq> 1 then (Fail, in1, out)
          else (case fread 1 in1 of
                  ([b], in2) \<Rightarrow>
                    (Ok, in2, out @ (if b \<noteq> 0 then bytes_of ''true'' else bytes_of ''false''))
                | (_, in2) \<Rightarrow> (Fail, in2, out)))"

text \<open>
  The lookup of \<^verbatim>\<open>bej_decode_stream_internal\<close> for one property: in the
  current subset for selector 0, else in the annotation dictionary from offset
  0 with the count \<^verbatim>\<open>annot_dict->size\<close> converted to \<^verbatim>\<open>uint16_t\<close>.
\<close>

definition lookup_sequence ::
    "bej_dictionary option \<Rightarrow> bej_dictionary option \<Rightarrow> u16 \<Rightarrow> u16 \<Rightarrow> u64 \<Rightarrow> byte
       \<Rightarrow> bej_dict_entry option" where
  "lookup_sequence annot_dict current_dict child_ptr child_cnt seq_num selector =
     (if selector = 0 then get_entry_by_seq current_dict child_ptr child_cnt seq_num
      else get_entry_by_seq annot_dict 0
             (case annot_dict of Some a \<Rightarrow> of_nat (dict_size a) | None \<Rightarrow> 0) seq_num)"

text \<open>
  The recursive part. The recursion of the C code is bounded by the input only
  as long as no unknown format seeks backwards, so the model carries a
  recursion bound (fuel): every call and every loop iteration uses one unit,
  and \<open>NoFuel\<close> is returned when it runs out. \<open>Undef\<close> and \<open>NoFuel\<close> are passed
  up even where the C code ignores the callee's return value.
\<close>

definition passes_up :: "status \<Rightarrow> bool" where
  "passes_up st \<longleftrightarrow> st = Undef \<or> st = NoFuel"

function (sequential) decode_value ::
      "nat \<Rightarrow> byte list \<Rightarrow> rstream \<Rightarrow> bej_dictionary option \<Rightarrow> bej_dictionary option
         \<Rightarrow> bej_dict_entry \<Rightarrow> u64 \<Rightarrow> dres"
  and decode_set ::
      "nat \<Rightarrow> byte list \<Rightarrow> rstream \<Rightarrow> bej_dictionary option \<Rightarrow> bej_dictionary option
         \<Rightarrow> bej_dict_entry \<Rightarrow> dres"
  and decode_array ::
      "nat \<Rightarrow> byte list \<Rightarrow> rstream \<Rightarrow> bej_dictionary option \<Rightarrow> bej_dictionary option
         \<Rightarrow> bej_dict_entry \<Rightarrow> dres"
  and decode_array_loop ::
      "nat \<Rightarrow> byte list \<Rightarrow> rstream \<Rightarrow> bej_dictionary option \<Rightarrow> bej_dictionary option
         \<Rightarrow> bej_dict_entry \<Rightarrow> u64 \<Rightarrow> u64 \<Rightarrow> dres"
  and bej_decode_stream_internal ::
      "nat \<Rightarrow> byte list \<Rightarrow> rstream \<Rightarrow> bej_dictionary option \<Rightarrow> bej_dictionary option
         \<Rightarrow> bej_dictionary option \<Rightarrow> u16 \<Rightarrow> u16 \<Rightarrow> u64 \<Rightarrow> u64 \<Rightarrow> bool \<Rightarrow> dres"
where
  "decode_value 0 out inp schema_dict annot_dict entry len = (NoFuel, inp, out)"
| "decode_value (Suc fuel) out inp schema_dict annot_dict entry len =
     (if format entry = 0x00 then decode_set fuel out inp schema_dict annot_dict entry
      else if format entry = 0x01 then decode_array fuel out inp schema_dict annot_dict entry
      else if format entry = 0x03 then unpack_integer_value out inp
      else if format entry = 0x05 then unpack_string_value out inp
      else if format entry = 0x07 then unpack_boolean_value out inp
      else if format entry = 0x04 then
        (case name entry of
           None \<Rightarrow> (Undef, inp, out)
         | Some nm \<Rightarrow>
             unpack_enum_value out inp
               (if starts_with_at nm then annot_dict else schema_dict) entry)
      else if format entry = 0x02 then (Ok, inp, out @ bytes_of ''null'')
      else (Ok, fseek_cur len inp, out))"
| "decode_set 0 out inp schema_dict annot_dict entry = (NoFuel, inp, out)"
| "decode_set (Suc fuel) out inp schema_dict annot_dict entry =
     (case unpack_nnint inp of
        (None, in1) \<Rightarrow> (Fail, in1, out)
      | (Some count, in1) \<Rightarrow>
          (case name entry of
             None \<Rightarrow> (Undef, in1, out @ bytes_of ''{'')
           | Some nm \<Rightarrow>
               (if count > 0 then
                  (case bej_decode_stream_internal fuel (out @ bytes_of ''{'') in1
                          schema_dict annot_dict
                          (if starts_with_at nm then annot_dict else schema_dict)
                          (child_pointer entry) (child_count entry) 0 count True of
                     (st, in2, out2) \<Rightarrow>
                       if passes_up st then (st, in2, out2)
                       else (Ok, in2, out2 @ bytes_of ''}''))
                else (Ok, in1, out @ bytes_of ''{'' @ bytes_of ''}''))))"
| "decode_array 0 out inp schema_dict annot_dict entry = (NoFuel, inp, out)"
| "decode_array (Suc fuel) out inp schema_dict annot_dict entry =
     (case unpack_nnint inp of
        (None, in1) \<Rightarrow> (Fail, in1, out)
      | (Some count, in1) \<Rightarrow>
          (case name entry of
             None \<Rightarrow> (Undef, in1, out @ bytes_of ''['')
           | Some nm \<Rightarrow>
               (case bej_dict_stream_next
                       (bej_dict_stream_init_subset
                          (if starts_with_at nm then annot_dict else schema_dict)
                          (child_pointer entry) (child_count entry)) of
                  None \<Rightarrow> (Ok, in1, out @ bytes_of ''['' @ bytes_of '']'')
                | Some (element_entry, _) \<Rightarrow>
                    (case decode_array_loop fuel (out @ bytes_of ''['') in1
                            schema_dict annot_dict element_entry 0 count of
                       (st, in2, out2) \<Rightarrow>
                         if st = Ok then (Ok, in2, out2 @ bytes_of '']'')
                         else (st, in2, out2)))))"
| "decode_array_loop 0 out inp schema_dict annot_dict element_entry i count =
     (if i < count then (NoFuel, inp, out) else (Ok, inp, out))"
| "decode_array_loop (Suc fuel) out inp schema_dict annot_dict element_entry i count =
     (if i < count then
        (case unpack_sfl inp of
           (None, in1) \<Rightarrow> (Fail, in1, out)
         | (Some (elem_seq, elem_fmt, elem_len), in1) \<Rightarrow>
             (case decode_value fuel out in1 schema_dict annot_dict element_entry elem_len of
                (st, in2, out2) \<Rightarrow>
                  if passes_up st then (st, in2, out2)
                  else decode_array_loop fuel
                         (if i < count - 1 then out2 @ bytes_of '','' else out2) in2
                         schema_dict annot_dict element_entry (i + 1) count))
      else (Ok, inp, out))"
| "bej_decode_stream_internal 0 out inp schema_dict annot_dict current_dict
       child_ptr child_cnt i prop_count add_name =
     (if i < prop_count then (NoFuel, inp, out) else (Ok, inp, out))"
| "bej_decode_stream_internal (Suc fuel) out inp schema_dict annot_dict current_dict
       child_ptr child_cnt i prop_count add_name =
     (if i < prop_count then
        (case unpack_sfl inp of
           (None, in1) \<Rightarrow> (Fail, in1, out)
         | (Some (seq, fmt, len), in1) \<Rightarrow>
             (case decode_sequence_number seq of (seq_num, selector) \<Rightarrow>
                if selector \<noteq> 0 \<and> annot_dict = None then (Undef, in1, out)
                else
                  (case lookup_sequence annot_dict current_dict child_ptr child_cnt
                          seq_num selector of
                     None \<Rightarrow> (Fail, in1, out)
                   | Some entry \<Rightarrow>
                       (case decode_value fuel
                               (if add_name then decode_name entry out else out) in1
                               schema_dict annot_dict entry len of
                          (st, in2, out2) \<Rightarrow>
                            if st \<noteq> Ok then (st, in2, out2)
                            else bej_decode_stream_internal fuel
                                   (if i < prop_count - 1 then out2 @ bytes_of '','' else out2)
                                   in2 schema_dict annot_dict current_dict child_ptr child_cnt
                                   (i + 1) prop_count add_name))))
      else (Ok, inp, out))"
  by pat_completeness auto
termination
  by (relation "measure (\<lambda>x. case x of
        Inl (Inl (fuel, rest)) \<Rightarrow> fuel
      | Inl (Inr (fuel, rest)) \<Rightarrow> fuel
      | Inr (Inl (fuel, rest)) \<Rightarrow> fuel
      | Inr (Inr (Inl (fuel, rest))) \<Rightarrow> fuel
      | Inr (Inr (Inr (fuel, rest))) \<Rightarrow> fuel)")
    auto

text \<open>\<^verbatim>\<open>bej_decode_stream\<close>, with the recursion bound of the model.\<close>

definition bej_decode_stream ::
    "nat \<Rightarrow> byte list \<Rightarrow> rstream \<Rightarrow> bej_dictionary option \<Rightarrow> bej_dictionary option \<Rightarrow> dres" where
  "bej_decode_stream fuel out inp schema_dict annot_dict =
     (if schema_dict = None \<or> annot_dict = None then (Fail, inp, out)
      else (let in0 = fseek_set 7 inp in
            case bej_dict_stream_next (bej_dict_stream_init schema_dict) of
              None \<Rightarrow> (Fail, in0, out)
            | Some (root_entry, _) \<Rightarrow>
                (case unpack_sfl in0 of
                   (None, in1) \<Rightarrow> (Fail, in1, out)
                 | (Some (seq, fmt, len), in1) \<Rightarrow>
                     if fmt \<noteq> 0x00 then (Fail, in1, out)
                     else decode_value fuel out in1 schema_dict annot_dict
                            (root_entry\<lparr>format := 0x00\<rparr>) len)))"

text \<open>
  \<^verbatim>\<open>bej_decode_buffer\<close>: the text is handed to \<^verbatim>\<open>json_parse\<close>, a parameter
  here (the JSON text parser is an external collaborator of the codec).
\<close>

definition bej_decode_buffer ::
    "(byte list \<Rightarrow> json_value option) \<Rightarrow> nat \<Rightarrow> byte list
       \<Rightarrow> bej_dictionary option \<Rightarrow> bej_dictionary option \<Rightarrow> json_value option" where
  "bej_decode_buffer json_parse fuel data schema_dict annot_dict =
     (case bej_decode_stream fuel [] \<lparr>buf = data, pos = 0\<rparr> schema_dict annot_dict of
        (st, inp, out) \<Rightarrow>
          if st = Ok then (if length out > 0 then json_parse out else None) else None)"

definition header_only_dictionary :: bej_dictionary where
  "header_only_dictionary = \<lparr>bytes =
     [0x00, 0x00, 0x00, 0x00, 0x0C, 0x00, 0x00, 0x00, 0x00, 0x00, 0x00, 0x00],
     dict_size = 12\<rparr>"
subsection \<open>The recursion bound\<close>

text \<open>
  A result other than \<open>NoFuel\<close> does not depend on the bound: every larger bound
  gives the same result.
\<close>

definition fuel_stable :: "nat \<Rightarrow> bool" where
  "fuel_stable n \<longleftrightarrow>
     (\<forall>k out inp sd ad entry len.
        fst (decode_value n out inp sd ad entry len) \<noteq> NoFuel \<longrightarrow>
        decode_value (n + k) out inp sd ad entry len = decode_value n out inp sd ad entry len)
   \<and> (\<forall>k out inp sd ad entry.
        fst (decode_set n out inp sd ad entry) \<noteq> NoFuel \<longrightarrow>
        decode_set (n + k) out inp sd ad entry = decode_set n out inp sd ad entry)
   \<and> (\<forall>k out inp sd ad entry.
        fst (decode_array n out inp sd ad entry) \<noteq> NoFuel \<longrightarrow>
        decode_array (n + k) out inp sd ad entry = decode_array n out inp sd ad entry)
   \<and> (\<forall>k out inp sd ad entry i cnt.
        fst (decode_array_loop n out inp sd ad entry i cnt) \<noteq> NoFuel \<longrightarrow>
        decode_array_loop (n + k) out inp sd ad entry i cnt
          = decode_array_loop n out inp sd ad entry i cnt)
   \<and> (\<forall>k out inp sd ad cd cp cc i cnt add_name.
        fst (bej_decode_stream_internal n out inp sd ad cd cp cc i cnt add_name) \<noteq> NoFuel \<longrightarrow>
        bej_decode_stream_internal (n + k) out inp sd ad cd cp cc i cnt add_name
          = bej_decode_stream_internal n out inp sd ad cd cp cc i cnt add_name)"

lemma fuel_stable_0: "fuel_stable 0"
  unfolding fuel_stable_def
proof (intro conjI allI impI)
  fix k out inp sd ad entry i cnt
  assume "fst (decode_array_loop 0 out inp sd ad entry i cnt) \<noteq> NoFuel"
  then have "\<not> i < cnt" by (auto split: if_splits)
  then show "decode_array_loop (0 + k) out inp sd ad entry i cnt
          = decode_array_loop 0 out inp sd ad entry i cnt"
    by (cases k) simp_all
next
  fix k out inp sd ad cd cp cc i cnt add_name
  assume "fst (bej_decode_stream_internal 0 out inp sd ad cd cp cc i cnt add_name) \<noteq> NoFuel"
  then have "\<not> i < cnt" by (auto split: if_splits)
  then show "bej_decode_stream_internal (0 + k) out inp sd ad cd cp cc i cnt add_name
          = bej_decode_stream_internal 0 out inp sd ad cd cp cc i cnt add_name"
    by (cases k) simp_all
qed simp_all


lemma fuel_stable_Suc:
  assumes fs: "fuel_stable n"
  shows "fuel_stable (Suc n)"
proof -
  from fs have dv: "\<And>k out inp sd ad entry len.
        fst (decode_value n out inp sd ad entry len) \<noteq> NoFuel \<Longrightarrow>
        decode_value (n + k) out inp sd ad entry len = decode_value n out inp sd ad entry len"
    by (simp_all add: fuel_stable_def)
  from fs have ds: "\<And>k out inp sd ad entry.
        fst (decode_set n out inp sd ad entry) \<noteq> NoFuel \<Longrightarrow>
        decode_set (n + k) out inp sd ad entry = decode_set n out inp sd ad entry"
    by (simp_all add: fuel_stable_def)
  from fs have da: "\<And>k out inp sd ad entry.
        fst (decode_array n out inp sd ad entry) \<noteq> NoFuel \<Longrightarrow>
        decode_array (n + k) out inp sd ad entry = decode_array n out inp sd ad entry"
    by (simp_all add: fuel_stable_def)
  from fs have dl: "\<And>k out inp sd ad entry i cnt.
        fst (decode_array_loop n out inp sd ad entry i cnt) \<noteq> NoFuel \<Longrightarrow>
        decode_array_loop (n + k) out inp sd ad entry i cnt
          = decode_array_loop n out inp sd ad entry i cnt"
    by (simp_all add: fuel_stable_def)
  from fs have di: "\<And>k out inp sd ad cd cp cc i cnt add_name.
        fst (bej_decode_stream_internal n out inp sd ad cd cp cc i cnt add_name) \<noteq> NoFuel \<Longrightarrow>
        bej_decode_stream_internal (n + k) out inp sd ad cd cp cc i cnt add_name
          = bej_decode_stream_internal n out inp sd ad cd cp cc i cnt add_name"
    by (simp_all add: fuel_stable_def)
  have p1: "decode_value (Suc n + k) out inp sd ad entry len
        = decode_value (Suc n) out inp sd ad entry len"
    if "fst (decode_value (Suc n) out inp sd ad entry len) \<noteq> NoFuel"
    for k out inp sd ad entry len
    using that by (auto simp: ds da)
  have p2: "decode_set (Suc n + k) out inp sd ad entry = decode_set (Suc n) out inp sd ad entry"
    if "fst (decode_set (Suc n) out inp sd ad entry) \<noteq> NoFuel"
    for k out inp sd ad entry
  proof (cases "unpack_nnint inp")
    case (Pair r in1)
    show ?thesis
    proof (cases r)
      case None
      with Pair show ?thesis by simp
    next
      case (Some cnt)
      show ?thesis
      proof (cases "name entry")
        case None
        with Pair Some show ?thesis by simp
      next
        case (Some nm)
        show ?thesis
        proof (cases "cnt > 0")
          case False
          with Pair \<open>r = Some cnt\<close> Some show ?thesis by simp
        next
          case True
          let ?call = "\<lambda>m. bej_decode_stream_internal m (out @ bytes_of ''{'') in1 sd ad
              (if starts_with_at nm then ad else sd) (child_pointer entry) (child_count entry)
              0 cnt True"
          from that Pair \<open>r = Some cnt\<close> Some True
          have "fst (?call n) \<noteq> NoFuel"
            by (auto simp: passes_up_def split: prod.splits if_splits)
          then have "?call (n + k) = ?call n" by (rule di)
          with Pair \<open>r = Some cnt\<close> Some True show ?thesis by simp
        qed
      qed
    qed
  qed
  have p3: "decode_array (Suc n + k) out inp sd ad entry = decode_array (Suc n) out inp sd ad entry"
    if "fst (decode_array (Suc n) out inp sd ad entry) \<noteq> NoFuel"
    for k out inp sd ad entry
  proof (cases "unpack_nnint inp")
    case (Pair r in1)
    show ?thesis
    proof (cases r)
      case None
      with Pair show ?thesis by simp
    next
      case (Some cnt)
      show ?thesis
      proof (cases "name entry")
        case None
        with Pair Some show ?thesis by simp
      next
        case (Some nm)
        show ?thesis
        proof (cases "bej_dict_stream_next (bej_dict_stream_init_subset
                  (if starts_with_at nm then ad else sd) (child_pointer entry) (child_count entry))")
          case None
          with Pair \<open>r = Some cnt\<close> Some show ?thesis by simp
        next
          case (Some es)
          obtain e s' where es: "es = (e, s')" by (cases es)
          let ?call = "\<lambda>m. decode_array_loop m (out @ bytes_of ''['') in1 sd ad e 0 cnt"
          from that Pair \<open>r = Some cnt\<close> \<open>name entry = Some nm\<close> Some es
          have "fst (?call n) \<noteq> NoFuel"
            by (auto split: prod.splits if_splits)
          then have "?call (n + k) = ?call n" by (rule dl)
          with Pair \<open>r = Some cnt\<close> \<open>name entry = Some nm\<close> Some es show ?thesis by simp
        qed
      qed
    qed
  qed
  have p4: "decode_array_loop (Suc n + k) out inp sd ad entry i cnt
        = decode_array_loop (Suc n) out inp sd ad entry i cnt"
    if "fst (decode_array_loop (Suc n) out inp sd ad entry i cnt) \<noteq> NoFuel"
    for k out inp sd ad entry i cnt
  proof (cases "i < cnt")
    case False
    then show ?thesis by simp
  next
    case True
    show ?thesis
    proof (cases "unpack_sfl inp")
      case (Pair r in1)
      show ?thesis
      proof (cases r)
        case None
        with True Pair show ?thesis by simp
      next
        case (Some sfl)
        obtain sq fm ln where sfl: "sfl = (sq, fm, ln)" by (cases sfl)
        obtain st in2 out2 where r1: "decode_value n out in1 sd ad entry ln = (st, in2, out2)"
          by (cases "decode_value n out in1 sd ad entry ln")
        from that True Pair Some sfl r1 have nf: "st \<noteq> NoFuel"
          by (auto simp: passes_up_def split: if_splits)
        then have e1: "decode_value (n + k) out in1 sd ad entry ln = (st, in2, out2)"
          using dv [of out in1 sd ad entry ln k] r1 by simp
        show ?thesis
        proof (cases "passes_up st")
          case pu: True
          with True Pair Some sfl r1 e1 show ?thesis by simp
        next
          case npu: False
          let ?call = "\<lambda>m. decode_array_loop m
              (if i < cnt - 1 then out2 @ bytes_of '','' else out2) in2 sd ad entry (i + 1) cnt"
          from that True Pair Some sfl r1 npu have "fst (?call n) \<noteq> NoFuel" by simp
          then have "?call (n + k) = ?call n" by (rule dl)
          with True Pair Some sfl r1 e1 npu show ?thesis by simp
        qed
      qed
    qed
  qed
  have p5: "bej_decode_stream_internal (Suc n + k) out inp sd ad cd cp cc i cnt add_name
        = bej_decode_stream_internal (Suc n) out inp sd ad cd cp cc i cnt add_name"
    if "fst (bej_decode_stream_internal (Suc n) out inp sd ad cd cp cc i cnt add_name) \<noteq> NoFuel"
    for k out inp sd ad cd cp cc i cnt add_name
  proof (cases "i < cnt")
    case False
    then show ?thesis by auto
  next
    case True
    show ?thesis
    proof (cases "unpack_sfl inp")
      case (Pair r in1)
      show ?thesis
      proof (cases r)
        case None
        with True Pair show ?thesis by auto
      next
        case (Some sfl)
        obtain sq fm ln where sfl: "sfl = (sq, fm, ln)" by (cases sfl)
        obtain seq_num selector where dsn: "decode_sequence_number sq = (seq_num, selector)"
          by (cases "decode_sequence_number sq")
        show ?thesis
        proof (cases "selector \<noteq> 0 \<and> ad = None")
          case u: True
          with True Pair Some sfl dsn show ?thesis by auto
        next
          case nu: False
          show ?thesis
          proof (cases "lookup_sequence ad cd cp cc seq_num selector")
            case None
            with True Pair \<open>r = Some sfl\<close> sfl dsn nu show ?thesis by auto
          next
            case (Some e)
            let ?o = "if add_name then decode_name e out else out"
            obtain st in2 out2 where r1: "decode_value n ?o in1 sd ad e ln = (st, in2, out2)"
              by (cases "decode_value n ?o in1 sd ad e ln")
            from that True Pair \<open>r = Some sfl\<close> sfl dsn nu Some r1 have nf: "st \<noteq> NoFuel"
              by (auto split: if_splits)
            then have e1: "decode_value (n + k) ?o in1 sd ad e ln = (st, in2, out2)"
              using dv [of ?o in1 sd ad e ln k] r1 by simp
            show ?thesis
            proof (cases "st = Ok")
              case False
              with True Pair \<open>r = Some sfl\<close> sfl dsn nu Some r1 e1 show ?thesis by auto
            next
              case ok: True
              let ?call = "\<lambda>m. bej_decode_stream_internal m
                  (if i < cnt - 1 then out2 @ bytes_of '','' else out2) in2 sd ad cd cp cc
                  (i + 1) cnt add_name"
              from that True Pair \<open>r = Some sfl\<close> sfl dsn nu Some r1 ok
              have "fst (?call n) \<noteq> NoFuel" by simp
              then have "?call (n + k) = ?call n" by (rule di)
              with True Pair \<open>r = Some sfl\<close> sfl dsn nu Some r1 e1 ok show ?thesis by auto
            qed
          qed
        qed
      qed
    qed
  qed
  show ?thesis
    unfolding fuel_stable_def
    by (intro conjI allI impI) (erule p1 p2 p3 p4 p5)+
qed

lemma fuel_stable: "fuel_stable n"
  by (induction n) (simp_all add: fuel_stable_0 fuel_stable_Suc)

lemma bej_decode_stream_fuel:
  assumes "fst (bej_decode_stream n out inp sd ad) \<noteq> NoFuel"
  shows "bej_decode_stream (n + k) out inp sd ad = bej_decode_stream n out inp sd ad"
proof -
  have dv: "\<And>out inp sd ad entry len.
        fst (decode_value n out inp sd ad entry len) \<noteq> NoFuel \<Longrightarrow>
        decode_value (n + k) out inp sd ad entry len = decode_value n out inp sd ad entry len"
    using fuel_stable [of n] by (simp add: fuel_stable_def)
  show ?thesis
    using assms
    by (auto simp: bej_decode_stream_def Let_def dv split: option.splits prod.splits if_splits)
qed

section \<open>Comparison of JSON trees\<close>

text \<open>
  \<^verbatim>\<open>json_compare\<close>: deep equality. Arrays are compared element by element in
  order; for objects, each key of the first is searched in the second and the
  first entry with that key decides. Values of different types differ.
\<close>

fun json_compare :: "json_value \<Rightarrow> json_value \<Rightarrow> bool" where
  "json_compare (JSON_STRING a) (JSON_STRING b) \<longleftrightarrow> a = b"
| "json_compare (JSON_NUMBER a) (JSON_NUMBER b) \<longleftrightarrow> a = b"
| "json_compare (JSON_BOOL a) (JSON_BOOL b) \<longleftrightarrow> a = b"
| "json_compare JSON_NULL JSON_NULL \<longleftrightarrow> True"
| "json_compare (JSON_ARRAY xs) (JSON_ARRAY ys) \<longleftrightarrow>
     length xs = length ys \<and> list_all2 json_compare xs ys"
| "json_compare (JSON_OBJECT ea) (JSON_OBJECT eb) \<longleftrightarrow>
     length ea = length eb \<and>
     list_all (\<lambda>(key, val_a).
        case find (\<lambda>(k, v). k = key) eb of
          None \<Rightarrow> False
        | Some (k, val_b) \<Rightarrow> json_compare val_a val_b) ea"
| "json_compare _ _ \<longleftrightarrow> False"

text \<open>The entry check of \<^verbatim>\<open>json_compare\<close>: a NULL pointer equals nothing.\<close>

definition json_compare_ptr :: "json_value option \<Rightarrow> json_value option \<Rightarrow> bool" where
  "json_compare_ptr a b =
     (case a of
        None \<Rightarrow> False
      | Some x \<Rightarrow> (case b of None \<Rightarrow> False | Some y \<Rightarrow> json_compare x y))"

lemma json_compare_object_length:
  "json_compare (JSON_OBJECT ea) t \<Longrightarrow> \<exists>eb. t = JSON_OBJECT eb \<and> length eb = length ea"
  by (cases t) auto
section \<open>Annotation lookups on a dictionary in the format's layout\<close>

text \<open>
  An annotation dictionary of 25 bytes in the layout of the format: the 12-byte
  header (entry count 1), one entry at offset 12 (NULL format, sequence 5, name
  \<open>@a\<close> at offset 22) and the name.
\<close>

definition example_annotation :: bej_dictionary where
  "example_annotation = \<lparr>bytes =
     [0x00, 0x00, 0x01, 0x00, 0x19, 0x00, 0x00, 0x00, 0x00, 0x00, 0x00, 0x00,
      0x20, 0x05, 0x00, 0x00, 0x00, 0x00, 0x00, 0x03, 0x16, 0x00,
      0x40, 0x61, 0x00],
     dict_size = 25\<rparr>"

definition annotation_entry :: bej_dict_entry where
  "annotation_entry = \<lparr>format = 2, flags = 0, sequence = 5, child_pointer = 0,
     child_count = 0, name = Some (bytes_of ''@a'')\<rparr>"

text \<open>
  Claim C7 at this dictionary. The encoder's lookup of the key \<open>@a\<close>
  and the decoder's lookup of sequence 5 with selector 1 walk the annotation
  dictionary from offset 0 with the count 25 (its size in bytes), read the
  header bytes as entries and find nothing, although the entry stands at offset
  12, where a walk from offset 12 finds it. So the encoder drops the property
  (the object encodes as an empty set).
\<close>

theorem annotation_lookup_walks_from_offset_0:
  "lookup_property example_root (Some example_schema) (Some example_annotation)
       (bytes_of ''@a'')
     = bej_dict_find_child_by_name (Some example_annotation) 0 25 (bytes_of ''@a'')
   \<and> lookup_property example_root (Some example_schema) (Some example_annotation)
       (bytes_of ''@a'') = None
   \<and> bej_dict_find_child_by_name (Some example_annotation) 12 0xFFFF
       (bytes_of ''@a'') = Some annotation_entry
   \<and> bej_encode_stream (JSON_OBJECT [(bytes_of ''@a'', JSON_NULL)])
       (Some example_schema) (Some example_annotation)
     = (Ok, [0x00, 0xF0, 0xF1, 0xF1, 0x00, 0x00, 0x00] @ pack_sfl 0 0 2 @ pack_nnint 0)
   \<and> lookup_sequence (Some example_annotation) (Some example_schema) 22 3 5 1
     = get_entry_by_seq (Some example_annotation) 0 25 5
   \<and> lookup_sequence (Some example_annotation) (Some example_schema) 22 3 5 1 = None
   \<and> get_entry_by_seq (Some example_annotation) 12 0xFFFF 5 = Some annotation_entry"
proof (intro conjI)
  show "lookup_property example_root (Some example_schema) (Some example_annotation)
       (bytes_of ''@a'')
     = bej_dict_find_child_by_name (Some example_annotation) 0 25 (bytes_of ''@a'')"
    by code_simp
  show "lookup_property example_root (Some example_schema) (Some example_annotation)
       (bytes_of ''@a'') = None"
    by code_simp
  show "bej_dict_find_child_by_name (Some example_annotation) 12 0xFFFF
       (bytes_of ''@a'') = Some annotation_entry"
    by code_simp
  show "bej_encode_stream (JSON_OBJECT [(bytes_of ''@a'', JSON_NULL)])
       (Some example_schema) (Some example_annotation)
     = (Ok, [0x00, 0xF0, 0xF1, 0xF1, 0x00, 0x00, 0x00] @ pack_sfl 0 0 2 @ pack_nnint 0)"
    by code_simp
  show "lookup_sequence (Some example_annotation) (Some example_schema) 22 3 5 1
     = get_entry_by_seq (Some example_annotation) 0 25 5"
    by code_simp
  show "lookup_sequence (Some example_annotation) (Some example_schema) 22 3 5 1 = None"
    by code_simp
  show "get_entry_by_seq (Some example_annotation) 12 0xFFFF 5 = Some annotation_entry"
    by code_simp
qed

section \<open>Round trip\<close>

definition quote :: "string \<Rightarrow> byte list" where
  "quote s = [0x22] @ bytes_of s @ [0x22]"

text \<open>
  Two JSON objects for the example schema: the first has the one property \<open>A\<close>,
  a string of 9 characters that contains double quotes; the second has the two
  properties \<open>A\<close> and \<open>B\<close>.
\<close>

definition quoted_json :: json_value where
  "quoted_json = JSON_OBJECT
     [(bytes_of ''A'',
       JSON_STRING (bytes_of ''x'' @ [0x22] @ bytes_of '','' @ quote ''B'' @ bytes_of '':''
                    @ [0x22] @ bytes_of ''y''))]"

definition plain_json :: json_value where
  "plain_json = JSON_OBJECT
     [(bytes_of ''A'', JSON_STRING (bytes_of ''x'')),
      (bytes_of ''B'', JSON_STRING (bytes_of ''y''))]"

definition quoted_bej :: "byte list" where
  "quoted_bej =
     [0x00, 0xF0, 0xF1, 0xF1, 0x00, 0x00, 0x00, 0x01, 0x00, 0x00, 0x01, 0x13,
      0x01, 0x01,
      0x01, 0x00, 0x50, 0x01, 0x0C, 0x01, 0x0A,
      0x78, 0x22, 0x2C, 0x22, 0x42, 0x22, 0x3A, 0x22, 0x79, 0x00]"

definition plain_bej :: "byte list" where
  "plain_bej =
     [0x00, 0xF0, 0xF1, 0xF1, 0x00, 0x00, 0x00, 0x01, 0x00, 0x00, 0x01, 0x14,
      0x01, 0x02,
      0x01, 0x00, 0x50, 0x01, 0x04, 0x01, 0x02, 0x78, 0x00,
      0x01, 0x02, 0x50, 0x01, 0x04, 0x01, 0x02, 0x79, 0x00]"

definition decoded_text :: "byte list" where
  "decoded_text = bytes_of ''{'' @ quote ''A'' @ bytes_of '':'' @ quote ''x'' @ bytes_of '',''
     @ quote ''B'' @ bytes_of '':'' @ quote ''y'' @ bytes_of ''}''"

lemma encode_quoted_json:
  "bej_encode_stream quoted_json (Some example_schema) (Some example_annotation)
     = (Ok, quoted_bej)"
  by code_simp

lemma encode_plain_json:
  "bej_encode_stream plain_json (Some example_schema) (Some example_annotation)
     = (Ok, plain_bej)"
  by code_simp

lemma decode_quoted_bej:
  "bej_decode_stream 10 [] \<lparr>buf = quoted_bej, pos = 0\<rparr>
      (Some example_schema) (Some example_annotation)
     = (Ok, \<lparr>buf = quoted_bej, pos = 31\<rparr>, decoded_text)"
  by code_simp

lemma decode_plain_bej:
  "bej_decode_stream 10 [] \<lparr>buf = plain_bej, pos = 0\<rparr>
      (Some example_schema) (Some example_annotation)
     = (Ok, \<lparr>buf = plain_bej, pos = 32\<rparr>, decoded_text)"
  by code_simp

text \<open>
  Claim C1 at these objects. Both encode; the decoder prints the string of the
  first without escaping its quotes, so both byte streams decode to the same
  text, \<open>{"A":"x","B":"y"}\<close>, the text of the second object, with every recursion
  bound from 10 on. Whatever the JSON parser makes of that text,
  \<^verbatim>\<open>bej_decode_buffer\<close> returns the same for both streams, and no tree compares
  equal (\<^verbatim>\<open>json_compare\<close>) to both objects, one property against two: the round
  trip fails for one of them, and for the first if the parser reads the text as
  the second.
\<close>

theorem roundtrip_unescaped_string:
  "bej_encode_stream quoted_json (Some example_schema) (Some example_annotation)
     = (Ok, quoted_bej)
   \<and> bej_decode_stream (10 + k) [] \<lparr>buf = quoted_bej, pos = 0\<rparr>
        (Some example_schema) (Some example_annotation)
     = (Ok, \<lparr>buf = quoted_bej, pos = 31\<rparr>, decoded_text)
   \<and> bej_encode_stream plain_json (Some example_schema) (Some example_annotation)
     = (Ok, plain_bej)
   \<and> bej_decode_stream (10 + k) [] \<lparr>buf = plain_bej, pos = 0\<rparr>
        (Some example_schema) (Some example_annotation)
     = (Ok, \<lparr>buf = plain_bej, pos = 32\<rparr>, decoded_text)
   \<and> bej_decode_buffer json_parse (10 + k) quoted_bej
        (Some example_schema) (Some example_annotation)
     = json_parse decoded_text
   \<and> bej_decode_buffer json_parse (10 + k) plain_bej
        (Some example_schema) (Some example_annotation)
     = json_parse decoded_text
   \<and> \<not> (json_compare_ptr (Some quoted_json)
            (bej_decode_buffer json_parse (10 + k) quoted_bej
               (Some example_schema) (Some example_annotation))
        \<and> json_compare_ptr (Some plain_json)
            (bej_decode_buffer json_parse (10 + k) plain_bej
               (Some example_schema) (Some example_annotation)))"
proof -
  have t: "length decoded_text > 0" by code_simp
  have dq: "bej_decode_stream (10 + k) [] \<lparr>buf = quoted_bej, pos = 0\<rparr>
        (Some example_schema) (Some example_annotation)
     = (Ok, \<lparr>buf = quoted_bej, pos = 31\<rparr>, decoded_text)"
    using bej_decode_stream_fuel [of 10 "[]" "\<lparr>buf = quoted_bej, pos = 0\<rparr>"
            "Some example_schema" "Some example_annotation" k]
    by (simp add: decode_quoted_bej)
  have dp: "bej_decode_stream (10 + k) [] \<lparr>buf = plain_bej, pos = 0\<rparr>
        (Some example_schema) (Some example_annotation)
     = (Ok, \<lparr>buf = plain_bej, pos = 32\<rparr>, decoded_text)"
    using bej_decode_stream_fuel [of 10 "[]" "\<lparr>buf = plain_bej, pos = 0\<rparr>"
            "Some example_schema" "Some example_annotation" k]
    by (simp add: decode_plain_bej)
  have bq: "bej_decode_buffer json_parse (10 + k) quoted_bej
        (Some example_schema) (Some example_annotation) = json_parse decoded_text"
    using dq t by (simp add: bej_decode_buffer_def)
  have bp: "bej_decode_buffer json_parse (10 + k) plain_bej
        (Some example_schema) (Some example_annotation) = json_parse decoded_text"
    using dp t by (simp add: bej_decode_buffer_def)
  have n: "\<not> (json_compare_ptr (Some quoted_json) r \<and> json_compare_ptr (Some plain_json) r)"
    for r
  proof (cases r)
    case None
    then show ?thesis by (simp add: json_compare_ptr_def)
  next
    case (Some y)
    show ?thesis
    proof
      assume a: "json_compare_ptr (Some quoted_json) r \<and> json_compare_ptr (Some plain_json) r"
      from a Some have "json_compare quoted_json y" by (simp add: json_compare_ptr_def)
      then obtain eb where e1: "y = JSON_OBJECT eb" "length eb = 1"
        unfolding quoted_json_def by (auto dest: json_compare_object_length)
      from a Some have "json_compare plain_json y" by (simp add: json_compare_ptr_def)
      then obtain ec where e2: "y = JSON_OBJECT ec" "length ec = 2"
        unfolding plain_json_def by (auto dest: json_compare_object_length)
      from e1 e2 show False by simp
    qed
  qed
  show ?thesis
    using encode_quoted_json encode_plain_json dq dp bq bp n [of "json_parse decoded_text"]
    by simp
qed

text \<open>
  A buffer of 23 bytes that has an entry where the walk from offset 0 passes:
  ten zero bytes, then at offset 10 an entry (NULL format, sequence 5, name at
  offset 20), then the name \<open>@a\<close>. On this buffer the lookup of an annotation
  key succeeds.
\<close>

definition scanned_annotation :: bej_dictionary where
  "scanned_annotation = \<lparr>bytes =
     [0x00, 0x00, 0x00, 0x00, 0x00, 0x00, 0x00, 0x00, 0x00, 0x00,
      0x20, 0x05, 0x00, 0x00, 0x00, 0x00, 0x00, 0x03, 0x14, 0x00,
      0x40, 0x61, 0x00],
     dict_size = 23\<rparr>"

theorem encode_properties_selector_routing_witness:
  "encode_properties
      (JSON_OBJECT [(bytes_of ''A'', JSON_STRING (bytes_of ''x'')), (bytes_of ''@a'', JSON_NULL)])
      example_root (Some example_schema) (Some scanned_annotation)
     = (Ok, pack_nnint 2
            @ (pack_nnint 0 @ [0x50] @ pack_nnint 4 @ [0x01, 0x02, 0x78, 0x00])
            @ (pack_nnint 11 @ [0x20] @ pack_nnint 0))
   \<and> (\<exists>chunks.
        pack_nnint 2
            @ (pack_nnint 0 @ [0x50] @ pack_nnint 4 @ [0x01, 0x02, 0x78, 0x00])
            @ (pack_nnint 11 @ [0x20] @ pack_nnint 0)
          = pack_nnint (of_nat (length chunks)) @ concat chunks
        \<and> list_all2 (emitted_property example_root (Some example_schema) (Some scanned_annotation))
              (filter (\<lambda>(key, val).
                   lookup_property example_root (Some example_schema) (Some scanned_annotation) key
                     \<noteq> None)
                 [(bytes_of ''A'', JSON_STRING (bytes_of ''x'')), (bytes_of ''@a'', JSON_NULL)])
              chunks)"
proof -
  have e: "encode_properties
      (JSON_OBJECT [(bytes_of ''A'', JSON_STRING (bytes_of ''x'')), (bytes_of ''@a'', JSON_NULL)])
      example_root (Some example_schema) (Some scanned_annotation)
     = (Ok, pack_nnint 2
            @ (pack_nnint 0 @ [0x50] @ pack_nnint 4 @ [0x01, 0x02, 0x78, 0x00])
            @ (pack_nnint 11 @ [0x20] @ pack_nnint 0))"
    by code_simp
  from encode_properties_selector_routing [OF e] e show ?thesis by blast
qed

end
